theory Spec2Isabelle
  imports Main "HOL-Library.Word" "HOL-Library.Signed_Division"
begin

section \<open>Types of consistent-hasher.h\<close>

text \<open>
  The hash type is the default \<^verbatim>\<open>unsigned int\<close> (32 bits), as is the position.
  The two counters of the ring are C \<^verbatim>\<open>int\<close>s: they are modelled as mathematical
  integers, and the places where they can leave the range of \<^verbatim>\<open>int\<close> (doubling the
  capacity, incrementing the length) are checked against \<open>INT_MAX\<close>.
\<close>

type_synonym ConsistentHasherHash = "32 word"

datatype ConsistentHasherError =
    CONSISTENT_HASHER_OK
  | CONSISTENT_HASHER_ERROR_IS_NULL
  | CONSISTENT_HASHER_ERROR_ALLOCATION
  | CONSISTENT_HASHER_ERROR_NODE_PRESENT

record ConsistentHasherNode =
  hash :: ConsistentHasherHash
  position :: "32 word"

text \<open>
  \<open>nodes\<close> is the pointer to the node buffer: \<open>None\<close> is \<^verbatim>\<open>NULL\<close>, and
  \<open>Some buf\<close> is a buffer of \<open>length buf\<close> allocated slots, whatever the field
  \<open>nodes_capacity\<close> says.
\<close>

record ConsistentHasher =
  ring_size :: "32 word"
  nodes :: "ConsistentHasherNode list option"
  nodes_len :: int
  nodes_capacity :: int

text \<open>What C leaves undefined is a value of the model, so that no such step is hidden.\<close>

datatype undefined_behaviour = DivisionByZero | NullPointer | OutOfBounds | SignedOverflow

definition INT_MAX :: int where
  "INT_MAX = 2147483647"

text \<open>The default of the configuration macro; \<^verbatim>\<open>test.c\<close> sets it to 1.\<close>

definition CONSISTENT_HASHER_INITIAL_CAPACITY :: int where
  "CONSISTENT_HASHER_INITIAL_CAPACITY = 8"

definition zero_node :: ConsistentHasherNode where
  "zero_node = \<lparr>hash = 0, position = 0\<rparr>"

text \<open>
  \<^verbatim>\<open>calloc(n, sizeof(ConsistentHasherNode))\<close>: the allocator either fails (\<open>ok\<close> is
  false, the result is \<^verbatim>\<open>NULL\<close>) or returns \<open>n\<close> zeroed slots. A negative \<open>n\<close>
  converts to a huge \<^verbatim>\<open>size_t\<close>, which no allocator grants.
\<close>

definition CONSISTENT_HASHER_CALLOC :: "bool \<Rightarrow> int \<Rightarrow> ConsistentHasherNode list option" where
  "CONSISTENT_HASHER_CALLOC ok n =
     (if ok \<and> 0 \<le> n then Some (replicate (nat n) zero_node) else None)"

text \<open>Reading \<^verbatim>\<open>p[i]\<close> and writing \<^verbatim>\<open>p[i] = n\<close>, inside the allocated slots only.\<close>

definition node_read ::
  "ConsistentHasherNode list option \<Rightarrow> int \<Rightarrow> undefined_behaviour + ConsistentHasherNode" where
  "node_read p i =
     (case p of
        None \<Rightarrow> Inl NullPointer
      | Some buf \<Rightarrow>
          if 0 \<le> i \<and> i < int (length buf) then Inr (buf ! nat i) else Inl OutOfBounds)"

definition node_write ::
  "ConsistentHasherNode list \<Rightarrow> int \<Rightarrow> ConsistentHasherNode
     \<Rightarrow> undefined_behaviour + ConsistentHasherNode list" where
  "node_write buf i n =
     (if 0 \<le> i \<and> i < int (length buf) then Inr (buf[nat i := n]) else Inl OutOfBounds)"

section \<open>consistent\_hasher\_init\<close>

definition consistent_hasher_init ::
  "ConsistentHasher option \<Rightarrow> 32 word \<Rightarrow> ConsistentHasher option" where
  "consistent_hasher_init ch rs =
     (case ch of
        None \<Rightarrow> None
      | Some _ \<Rightarrow>
          Some \<lparr>ring_size = rs, nodes = None, nodes_len = 0, nodes_capacity = 0\<rparr>)"

section \<open>\_consistent\_hasher\_binary\_search\<close>

text \<open>
  The loop of the search. \<^verbatim>\<open>mid\<close> is \<^verbatim>\<open>(end - start) / 2 + start\<close> before the loop and
  again at the end of every round, so each round computes it from \<open>start\<close> and
  \<open>end\<close>; the division is C's, which truncates (\<open>-1 sdiv 2 = 0\<close>). On a match the
  code stores \<^verbatim>\<open>start\<close> in \<^verbatim>\<open>*index\<close>, on exhaustion \<^verbatim>\<open>mid\<close>. All callers pass a
  non-null \<^verbatim>\<open>index\<close>.
\<close>

function binary_search_loop ::
  "ConsistentHasherNode list option \<Rightarrow> 32 word \<Rightarrow> int \<Rightarrow> int
     \<Rightarrow> undefined_behaviour + (bool \<times> int)" where
  "binary_search_loop ns p start endx =
     (let mid = (endx - start) sdiv 2 + start in
      if endx \<ge> start then
        (case node_read ns mid of
           Inl u \<Rightarrow> Inl u
         | Inr n \<Rightarrow>
             if position n = p then Inr (True, start)
             else
               let endx' = (if position n > p then mid - 1 else endx);
                   start' = (if \<not> position n > p \<and> position n < p then mid + 1 else start)
               in binary_search_loop ns p start' endx')
      else Inr (False, mid))"
  by pat_completeness auto
termination
proof (relation "measure (\<lambda>(ns, p, start, endx). nat (endx - start + 1))")
  show "wf (measure (\<lambda>(ns, p, start, endx). nat (endx - start + 1)))"
    by simp
next
  fix ns :: "ConsistentHasherNode list option" and p :: "32 word"
    and start endx mid :: int and n :: ConsistentHasherNode and endx' start' :: int
  assume mid: "mid = (endx - start) sdiv 2 + start"
    and le: "start \<le> endx"
    and ne: "position n \<noteq> p"
    and e: "endx' = (if p < position n then mid - 1 else endx)"
    and s: "start' = (if \<not> p < position n \<and> position n < p then mid + 1 else start)"
  from le have d: "(endx - start) sdiv 2 = (endx - start) div 2"
    by (simp add: signed_divide_int_def sgn_if)
  from le mid d have "start \<le> mid" "mid \<le> endx"
    by simp_all
  moreover from ne have "p < position n \<or> position n < p"
    by auto
  ultimately have "endx' - start' < endx - start"
    using e s by auto
  with le show "((ns, p, start', endx'), (ns, p, start, endx))
      \<in> measure (\<lambda>(ns, p, start, endx). nat (endx - start + 1))"
    by simp
qed

declare binary_search_loop.simps [simp del]

definition consistent_hasher_binary_search ::
  "ConsistentHasher \<Rightarrow> ConsistentHasherHash \<Rightarrow> undefined_behaviour + (bool \<times> int)" where
  "consistent_hasher_binary_search ch node_hash =
     (let start = 0;
          endx = nodes_len ch - 1
      in if ring_size ch = 0 then Inl DivisionByZero
         else
           let position = node_hash mod ring_size ch
           in binary_search_loop (nodes ch) position start endx)"

section \<open>consistent\_hasher\_insert\_node\<close>

text \<open>
  The copy loop of the resize path:
  \<^verbatim>\<open>for (i = 0; i < capacity; ++i) new_nodes[(i >= index && i < capacity) ? i+1 : i] = nodes[i];\<close>
\<close>

function insert_copy_loop ::
  "ConsistentHasherNode list \<Rightarrow> ConsistentHasherNode list \<Rightarrow> int \<Rightarrow> int \<Rightarrow> int
     \<Rightarrow> undefined_behaviour + ConsistentHasherNode list" where
  "insert_copy_loop old_nodes new_nodes index capacity i =
     (if i < capacity then
        (case node_read (Some old_nodes) i of
           Inl u \<Rightarrow> Inl u
         | Inr n \<Rightarrow>
             (case node_write new_nodes (if i \<ge> index \<and> i < capacity then i + 1 else i) n of
                Inl u \<Rightarrow> Inl u
              | Inr new_nodes' \<Rightarrow> insert_copy_loop old_nodes new_nodes' index capacity (i + 1)))
      else Inr new_nodes)"
  by pat_completeness auto
termination
  by (relation "measure (\<lambda>(old_nodes, new_nodes, index, capacity, i). nat (capacity - i))") auto

declare insert_copy_loop.simps [simp del]

text \<open>
  The shift loop of the path without resize:
  \<^verbatim>\<open>for (i = nodes_len - 1; i > index + 1; --i) nodes[i] = nodes[i - 1];\<close>
\<close>

function insert_shift_loop ::
  "ConsistentHasherNode list \<Rightarrow> int \<Rightarrow> int
     \<Rightarrow> undefined_behaviour + ConsistentHasherNode list" where
  "insert_shift_loop buf index i =
     (if i > index + 1 then
        (case node_read (Some buf) (i - 1) of
           Inl u \<Rightarrow> Inl u
         | Inr n \<Rightarrow>
             (case node_write buf i n of
                Inl u \<Rightarrow> Inl u
              | Inr buf' \<Rightarrow> insert_shift_loop buf' index (i - 1)))
      else Inr buf)"
  by pat_completeness auto
termination
  by (relation "measure (\<lambda>(buf, index, i). nat (i - index))") auto

declare insert_shift_loop.simps [simp del]

text \<open>
  The function takes the initial capacity of the configuration (\<open>icap\<close>), the outcome of
  the one allocation the call may make (\<open>ok\<close>), the ring pointer and the hash, and returns
  the error code with the ring as the call leaves it.
\<close>

definition consistent_hasher_insert_node ::
  "int \<Rightarrow> bool \<Rightarrow> ConsistentHasher option \<Rightarrow> ConsistentHasherHash
     \<Rightarrow> undefined_behaviour + (ConsistentHasherError \<times> ConsistentHasher option)" where
  "consistent_hasher_insert_node icap ok chp node_hash =
     (case chp of
        None \<Rightarrow> Inr (CONSISTENT_HASHER_ERROR_IS_NULL, None)
      | Some ch \<Rightarrow>
          if ring_size ch = 0 then Inl DivisionByZero
          else
            let new_node = \<lparr>hash = node_hash, position = node_hash mod ring_size ch\<rparr>
            in (case nodes ch of
                 None \<Rightarrow>
                   (case CONSISTENT_HASHER_CALLOC ok icap of
                      None \<Rightarrow> Inr (CONSISTENT_HASHER_ERROR_ALLOCATION, Some ch)
                    | Some buf \<Rightarrow>
                        (case node_write buf 0 new_node of
                           Inl u \<Rightarrow> Inl u
                         | Inr buf' \<Rightarrow>
                             Inr (CONSISTENT_HASHER_OK,
                                  Some (ch\<lparr>nodes := Some buf', nodes_capacity := icap,
                                            nodes_len := 1\<rparr>))))
               | Some buf \<Rightarrow>
                   (case consistent_hasher_binary_search ch node_hash of
                      Inl u \<Rightarrow> Inl u
                    | Inr (found, index) \<Rightarrow>
                        if found then Inr (CONSISTENT_HASHER_ERROR_NODE_PRESENT, Some ch)
                        else if nodes_capacity ch = nodes_len ch then
                          (if nodes_capacity ch * 2 > INT_MAX then Inl SignedOverflow
                           else
                             let new_capacity = nodes_capacity ch * 2
                             in (case CONSISTENT_HASHER_CALLOC ok new_capacity of
                                  None \<Rightarrow> Inr (CONSISTENT_HASHER_ERROR_ALLOCATION, Some ch)
                                | Some new_nodes \<Rightarrow>
                                    (case insert_copy_loop buf new_nodes index
                                            (nodes_capacity ch) 0 of
                                       Inl u \<Rightarrow> Inl u
                                     | Inr new_nodes' \<Rightarrow>
                                         (case node_write new_nodes' index new_node of
                                            Inl u \<Rightarrow> Inl u
                                          | Inr new_nodes'' \<Rightarrow>
                                              Inr (CONSISTENT_HASHER_OK,
                                                   Some (ch\<lparr>nodes := Some new_nodes'',
                                                             nodes_capacity := new_capacity,
                                                             nodes_len := nodes_len ch + 1\<rparr>))))))
                        else
                          (case insert_shift_loop buf index (nodes_len ch - 1) of
                             Inl u \<Rightarrow> Inl u
                           | Inr buf' \<Rightarrow>
                               (case node_write buf' index new_node of
                                  Inl u \<Rightarrow> Inl u
                                | Inr buf'' \<Rightarrow>
                                    if nodes_len ch + 1 > INT_MAX then Inl SignedOverflow
                                    else
                                      Inr (CONSISTENT_HASHER_OK,
                                           Some (ch\<lparr>nodes := Some buf'',
                                                     nodes_len := nodes_len ch + 1\<rparr>)))))))"

section \<open>consistent\_hasher\_delete\_node\<close>

text \<open>
  The copy loop of the shrink path:
  \<^verbatim>\<open>for (i = 0; i < nodes_len - 1; ++i) new_nodes[i] = nodes[(i < index) ? i : i+1];\<close>
\<close>

function delete_copy_loop ::
  "ConsistentHasherNode list \<Rightarrow> ConsistentHasherNode list \<Rightarrow> int \<Rightarrow> int \<Rightarrow> int
     \<Rightarrow> undefined_behaviour + ConsistentHasherNode list" where
  "delete_copy_loop old_nodes new_nodes index len i =
     (if i < len - 1 then
        (case node_read (Some old_nodes) (if i < index then i else i + 1) of
           Inl u \<Rightarrow> Inl u
         | Inr n \<Rightarrow>
             (case node_write new_nodes i n of
                Inl u \<Rightarrow> Inl u
              | Inr new_nodes' \<Rightarrow> delete_copy_loop old_nodes new_nodes' index len (i + 1)))
      else Inr new_nodes)"
  by pat_completeness auto
termination
  by (relation "measure (\<lambda>(old_nodes, new_nodes, index, len, i). nat (len - i))") auto

declare delete_copy_loop.simps [simp del]

text \<open>
  The shift loop of the path without shrink:
  \<^verbatim>\<open>for (i = index; i < nodes_len - 2; ++i) nodes[i] = nodes[i+1];\<close>
\<close>

function delete_shift_loop ::
  "ConsistentHasherNode list \<Rightarrow> int \<Rightarrow> int
     \<Rightarrow> undefined_behaviour + ConsistentHasherNode list" where
  "delete_shift_loop buf len i =
     (if i < len - 2 then
        (case node_read (Some buf) (i + 1) of
           Inl u \<Rightarrow> Inl u
         | Inr n \<Rightarrow>
             (case node_write buf i n of
                Inl u \<Rightarrow> Inl u
              | Inr buf' \<Rightarrow> delete_shift_loop buf' len (i + 1)))
      else Inr buf)"
  by pat_completeness auto
termination
  by (relation "measure (\<lambda>(buf, len, i). nat (len - i))") auto

declare delete_shift_loop.simps [simp del]

definition consistent_hasher_delete_node ::
  "bool \<Rightarrow> ConsistentHasher option \<Rightarrow> ConsistentHasherHash
     \<Rightarrow> undefined_behaviour + (ConsistentHasherError \<times> ConsistentHasher option)" where
  "consistent_hasher_delete_node ok chp node_hash =
     (case chp of
        None \<Rightarrow> Inr (CONSISTENT_HASHER_ERROR_IS_NULL, None)
      | Some ch \<Rightarrow>
          (case consistent_hasher_binary_search ch node_hash of
             Inl u \<Rightarrow> Inl u
           | Inr (found, index) \<Rightarrow>
               if \<not> found then Inr (CONSISTENT_HASHER_OK, Some ch)
               else if nodes_len ch - 1 = nodes_capacity ch sdiv 2 then
                 (case CONSISTENT_HASHER_CALLOC ok (nodes_len ch - 1) of
                    None \<Rightarrow> Inr (CONSISTENT_HASHER_ERROR_ALLOCATION, Some ch)
                  | Some new_nodes \<Rightarrow>
                      (case nodes ch of
                         None \<Rightarrow> Inl NullPointer
                       | Some buf \<Rightarrow>
                           (case delete_copy_loop buf new_nodes index (nodes_len ch) 0 of
                              Inl u \<Rightarrow> Inl u
                            | Inr new_nodes' \<Rightarrow>
                                Inr (CONSISTENT_HASHER_OK,
                                     Some (ch\<lparr>nodes := Some new_nodes',
                                               nodes_len := nodes_len ch - 1,
                                               nodes_capacity := nodes_len ch - 1\<rparr>)))))
               else
                 (case nodes ch of
                    None \<Rightarrow> Inl NullPointer
                  | Some buf \<Rightarrow>
                      (case delete_shift_loop buf (nodes_len ch) index of
                         Inl u \<Rightarrow> Inl u
                       | Inr buf' \<Rightarrow>
                           Inr (CONSISTENT_HASHER_OK,
                                Some (ch\<lparr>nodes := Some buf',
                                          nodes_len := nodes_len ch - 1\<rparr>))))))"

section \<open>consistent\_hasher\_get\_node\_of\<close>

text \<open>The function dereferences \<^verbatim>\<open>ch\<close> without a check and reads \<^verbatim>\<open>nodes[index]\<close> twice.\<close>

definition consistent_hasher_get_node_of ::
  "ConsistentHasher option \<Rightarrow> ConsistentHasherHash
     \<Rightarrow> undefined_behaviour + ConsistentHasherHash" where
  "consistent_hasher_get_node_of chp item_hash =
     (case chp of
        None \<Rightarrow> Inl NullPointer
      | Some ch \<Rightarrow>
          (case consistent_hasher_binary_search ch item_hash of
             Inl u \<Rightarrow> Inl u
           | Inr (found, index) \<Rightarrow>
               if ring_size ch = 0 then Inl DivisionByZero
               else
                 (case node_read (nodes ch) index of
                    Inl u \<Rightarrow> Inl u
                  | Inr n \<Rightarrow>
                      let index' = (if item_hash mod ring_size ch > position n then 0 else index)
                      in (case node_read (nodes ch) index' of
                            Inl u \<Rightarrow> Inl u
                          | Inr m \<Rightarrow> Inr (hash m)))))"

section \<open>Notions the properties are stated with\<close>

text \<open>The entries of the ring: \<^verbatim>\<open>nodes[0]\<close> to \<^verbatim>\<open>nodes[nodes_len - 1]\<close>.\<close>

definition ring_nodes :: "ConsistentHasher \<Rightarrow> ConsistentHasherNode list" where
  "ring_nodes ch =
     (case nodes ch of None \<Rightarrow> [] | Some buf \<Rightarrow> take (nat (nodes_len ch)) buf)"

text \<open>
  A well-formed ring: without a buffer it is empty; with one, the length is within the
  capacity and the capacity is the number of allocated slots.
\<close>

definition ring_wf :: "ConsistentHasher \<Rightarrow> bool" where
  "ring_wf ch =
     (case nodes ch of
        None \<Rightarrow> nodes_len ch = 0 \<and> nodes_capacity ch = 0
      | Some buf \<Rightarrow>
          0 \<le> nodes_len ch \<and> nodes_len ch \<le> nodes_capacity ch
          \<and> nodes_capacity ch = int (length buf))"

text \<open>Sortedness: each entry's position is below that of the next entry.\<close>

definition sortedness :: "ConsistentHasher \<Rightarrow> bool" where
  "sortedness ch = successively (<) (map position (ring_nodes ch))"

text \<open>
  A sequence of inserts and deletes on one ring, every allocation succeeding; it stops at
  the first call with undefined behaviour and otherwise returns the ring as the last call
  leaves it, whatever the error codes were.
\<close>

datatype ring_op = Insert ConsistentHasherHash | Delete ConsistentHasherHash

fun run_ops ::
  "int \<Rightarrow> ConsistentHasher option \<Rightarrow> ring_op list
     \<Rightarrow> undefined_behaviour + ConsistentHasher option" where
  "run_ops icap chp [] = Inr chp"
| "run_ops icap chp (Insert h # ops) =
     (case consistent_hasher_insert_node icap True chp h of
        Inl u \<Rightarrow> Inl u
      | Inr (e, chp') \<Rightarrow> run_ops icap chp' ops)"
| "run_ops icap chp (Delete h # ops) =
     (case consistent_hasher_delete_node True chp h of
        Inl u \<Rightarrow> Inl u
      | Inr (e, chp') \<Rightarrow> run_ops icap chp' ops)"

text \<open>A ring created empty: \<^verbatim>\<open>consistent_hasher_init\<close> on some struct.\<close>

definition new_ring :: "32 word \<Rightarrow> ConsistentHasher option" where
  "new_ring rs =
     consistent_hasher_init
       (Some \<lparr>ring_size = 0, nodes = None, nodes_len = 0, nodes_capacity = 0\<rparr>) rs"

text \<open>
  For the concrete rings below, all of ring size 1024: the node that an insert builds
  for a hash, and the ring whose buffer of \<open>cap\<close> slots holds \<open>buf\<close> followed by
  zeroed slots.
\<close>

definition node_of :: "ConsistentHasherHash \<Rightarrow> ConsistentHasherNode" where
  "node_of h = \<lparr>hash = h, position = h mod 1024\<rparr>"

definition ring_of :: "ConsistentHasherNode list \<Rightarrow> int \<Rightarrow> int \<Rightarrow> ConsistentHasher" where
  "ring_of buf len cap =
     \<lparr>ring_size = 1024,
      nodes = Some (buf @ replicate (nat cap - length buf) zero_node),
      nodes_len = len,
      nodes_capacity = cap\<rparr>"

section \<open>The assertions of test.c\<close>

text \<open>
  \<^verbatim>\<open>test.c\<close> sets the initial capacity to 1 and a ring size of 1024; each of its
  assertions holds of the model.
\<close>

lemma test_c_inserts:
  "run_ops 1 (new_ring 1024) [Insert 123, Insert 456, Insert 924]
     = Inr (Some (ring_of [node_of 123, node_of 456, node_of 924] 3 4))"
  by code_simp

lemma test_c_insert_present:
  "consistent_hasher_insert_node 1 True
     (Some (ring_of [node_of 123, node_of 456, node_of 924] 3 4)) 123
     = Inr (CONSISTENT_HASHER_ERROR_NODE_PRESENT,
            Some (ring_of [node_of 123, node_of 456, node_of 924] 3 4))"
  by code_simp

lemma test_c_delete_insert:
  "consistent_hasher_delete_node True
     (Some (ring_of [node_of 123, node_of 456, node_of 924] 3 4)) 123
     = Inr (CONSISTENT_HASHER_OK, Some (ring_of [node_of 456, node_of 924] 2 2))"
  "consistent_hasher_insert_node 1 True (Some (ring_of [node_of 456, node_of 924] 2 2)) 123
     = Inr (CONSISTENT_HASHER_OK,
            Some (ring_of [node_of 123, node_of 456, node_of 924] 3 4))"
  by code_simp+

lemma test_c_get_node_of:
  "map (consistent_hasher_get_node_of
         (Some (ring_of [node_of 123, node_of 456, node_of 924] 3 4)))
     [123, 100, 90, 150, 400, 457, 800, 1000]
     = map Inr [123, 123, 123, 456, 456, 924, 924, 123]"
  by code_simp

section \<open>The search\<close>

lemma sdiv_2_nonneg: "0 \<le> (d::int) \<Longrightarrow> d sdiv 2 = d div 2"
  by (simp add: signed_divide_int_def sgn_if)

lemma binary_search_loop_exhausted:
  "endx < start \<Longrightarrow>
   binary_search_loop ns p start endx = Inr (False, (endx - start) sdiv 2 + start)"
  by (subst binary_search_loop.simps) (simp add: Let_def)

text \<open>
  When no slot of the window holds the position, the search stays inside the window,
  reads allocated slots only and reports a miss, sorted or not.
\<close>

lemma binary_search_loop_absent:
  assumes "ns = Some buf" and "0 \<le> start" and "endx < int (length buf)"
    and "\<forall>i. start \<le> i \<and> i \<le> endx \<longrightarrow> position (buf ! nat i) \<noteq> p"
  shows "\<exists>m. binary_search_loop ns p start endx = Inr (False, m)"
  using assms
proof (induction ns p start endx rule: binary_search_loop.induct)
  case (1 ns p start endx)
  show ?case
  proof (cases "start \<le> endx")
    case False
    then show ?thesis
      using binary_search_loop_exhausted [of endx start ns p] by simp
  next
    case True
    define mid where "mid = (endx - start) sdiv 2 + start"
    from True have mid_div: "mid = (endx - start) div 2 + start"
      by (simp add: mid_def sdiv_2_nonneg)
    with True have lo: "start \<le> mid" and hi: "mid \<le> endx"
      by simp_all
    define n where "n = buf ! nat mid"
    from lo hi "1.prems" have rd: "node_read ns mid = Inr n"
      by (simp add: node_read_def n_def)
    from lo hi "1.prems" have ne: "position n \<noteq> p"
      by (simp add: n_def)
    define endx' where "endx' = (if position n > p then mid - 1 else endx)"
    define start' where
      "start' = (if \<not> position n > p \<and> position n < p then mid + 1 else start)"
    have step: "binary_search_loop ns p start endx = binary_search_loop ns p start' endx'"
      using True rd ne
      by (subst binary_search_loop.simps)
        (simp add: Let_def mid_def [symmetric] endx'_def start'_def)
    have "\<exists>m. binary_search_loop ns p start' endx' = Inr (False, m)"
    proof (rule "1.IH" [OF mid_def True rd ne endx'_def start'_def])
      show "ns = Some buf" by (rule "1.prems")
      show "0 \<le> start'" using "1.prems" lo by (simp add: start'_def)
      show "endx' < int (length buf)" using "1.prems" hi by (simp add: endx'_def)
      show "\<forall>i. start' \<le> i \<and> i \<le> endx' \<longrightarrow> position (buf ! nat i) \<noteq> p"
        using "1.prems" lo hi by (auto simp: start'_def endx'_def split: if_splits)
    qed
    with step show ?thesis by simp
  qed
qed

lemma binary_search_absent:
  assumes wf: "ring_wf ch" and rs: "ring_size ch \<noteq> 0"
    and absent: "\<forall>n \<in> set (ring_nodes ch). position n \<noteq> node_hash mod ring_size ch"
  shows "\<exists>m. consistent_hasher_binary_search ch node_hash = Inr (False, m)"
proof (cases "nodes ch")
  case None
  with wf have "nodes_len ch = 0"
    by (simp add: ring_wf_def)
  then show ?thesis
    using rs binary_search_loop_exhausted [of "-1" 0 "nodes ch" "node_hash mod ring_size ch"]
    by (simp add: consistent_hasher_binary_search_def)
next
  case (Some buf)
  with wf have len: "0 \<le> nodes_len ch" "nodes_len ch \<le> int (length buf)"
    by (simp_all add: ring_wf_def)
  have "\<forall>i. 0 \<le> i \<and> i \<le> nodes_len ch - 1
      \<longrightarrow> position (buf ! nat i) \<noteq> node_hash mod ring_size ch"
  proof (intro allI impI)
    fix i :: int
    assume i: "0 \<le> i \<and> i \<le> nodes_len ch - 1"
    with len have "nat i < length (take (nat (nodes_len ch)) buf)"
      by simp
    then have "take (nat (nodes_len ch)) buf ! nat i \<in> set (ring_nodes ch)"
      unfolding ring_nodes_def Some option.case by (rule nth_mem)
    moreover from i have "take (nat (nodes_len ch)) buf ! nat i = buf ! nat i"
      by simp
    ultimately show "position (buf ! nat i) \<noteq> node_hash mod ring_size ch"
      using absent by auto
  qed
  with Some len rs show ?thesis
    using binary_search_loop_absent
      [of "nodes ch" buf 0 "nodes_len ch - 1" "node_hash mod ring_size ch"]
    by (simp add: consistent_hasher_binary_search_def)
qed

subsection \<open>The search on a sorted ring\<close>

text \<open>One round of the loop, for a window that is not empty and a slot that is allocated.\<close>

lemma binary_search_loop_round:
  assumes "start \<le> endx" and "node_read ns ((endx - start) sdiv 2 + start) = Inr n"
  shows "binary_search_loop ns p start endx =
     (if position n = p then Inr (True, start)
      else if position n > p then binary_search_loop ns p start ((endx - start) sdiv 2 + start - 1)
      else binary_search_loop ns p ((endx - start) sdiv 2 + start + 1) endx)"
  using assms
  by (subst binary_search_loop.simps) (auto simp: Let_def)

lemma binary_search_loop_lower_bound:
  assumes "ns = Some buf" and "0 \<le> start" and "start \<le> endx + 1" and "endx < len"
    and "len \<le> int (length buf)"
    and "\<forall>i j. 0 \<le> i \<and> i < j \<and> j < len \<longrightarrow> position (buf ! nat i) < position (buf ! nat j)"
    and "\<forall>i. 0 \<le> i \<and> i < start \<longrightarrow> position (buf ! nat i) < p"
    and "\<forall>i. endx < i \<and> i < len \<longrightarrow> p < position (buf ! nat i)"
    and "\<forall>i. start \<le> i \<and> i \<le> endx \<longrightarrow> position (buf ! nat i) \<noteq> p"
  shows "\<exists>m. binary_search_loop ns p start endx = Inr (False, m) \<and> 0 \<le> m \<and> m \<le> len
           \<and> (\<forall>i. 0 \<le> i \<and> i < m \<longrightarrow> position (buf ! nat i) < p)
           \<and> (\<forall>i. m \<le> i \<and> i < len \<longrightarrow> p < position (buf ! nat i))"
  using assms
proof (induction ns p start endx rule: binary_search_loop.induct)
  case (1 ns p start endx)
  note sorted = "1.prems"(6) and below = "1.prems"(7) and above = "1.prems"(8)
    and absent = "1.prems"(9)
  show ?case
  proof (cases "start \<le> endx")
    case False
    with "1.prems"(3) have e: "endx = start - 1"
      by simp
    then have "binary_search_loop ns p start endx = Inr (False, start)"
      using binary_search_loop_exhausted [of endx start ns p]
      by (simp add: signed_divide_int_def)
    with e "1.prems"(2,4) below above show ?thesis
      by auto
  next
    case True
    define mid where "mid = (endx - start) sdiv 2 + start"
    from True have "mid = (endx - start) div 2 + start"
      by (simp add: mid_def sdiv_2_nonneg)
    with True have lo: "start \<le> mid" and hi: "mid \<le> endx"
      by simp_all
    define n where "n = buf ! nat mid"
    from lo hi "1.prems"(1,2,4,5) have rd: "node_read ns mid = Inr n"
      by (simp add: node_read_def n_def)
    from lo hi absent have ne: "position n \<noteq> p"
      by (simp add: n_def)
    define endx' where "endx' = (if position n > p then mid - 1 else endx)"
    define start' where
      "start' = (if \<not> position n > p \<and> position n < p then mid + 1 else start)"
    have step: "binary_search_loop ns p start endx = binary_search_loop ns p start' endx'"
      using ne binary_search_loop_round [OF True rd [unfolded mid_def], of p]
      by (auto simp: mid_def start'_def endx'_def)
    have "\<exists>m. binary_search_loop ns p start' endx' = Inr (False, m) \<and> 0 \<le> m \<and> m \<le> len
           \<and> (\<forall>i. 0 \<le> i \<and> i < m \<longrightarrow> position (buf ! nat i) < p)
           \<and> (\<forall>i. m \<le> i \<and> i < len \<longrightarrow> p < position (buf ! nat i))"
    proof (rule "1.IH" [OF mid_def True rd ne endx'_def start'_def])
      show "ns = Some buf" by (rule "1.prems")
      show "0 \<le> start'" using "1.prems"(2) lo by (simp add: start'_def)
      show "start' \<le> endx' + 1" using lo hi ne by (auto simp: start'_def endx'_def)
      show "endx' < len" using "1.prems"(4) hi by (simp add: endx'_def)
      show "len \<le> int (length buf)" by (rule "1.prems")
      show "\<forall>i j. 0 \<le> i \<and> i < j \<and> j < len
          \<longrightarrow> position (buf ! nat i) < position (buf ! nat j)"
        by (rule sorted)
      show "\<forall>i. 0 \<le> i \<and> i < start' \<longrightarrow> position (buf ! nat i) < p"
      proof (intro allI impI)
        fix i assume i: "0 \<le> i \<and> i < start'"
        show "position (buf ! nat i) < p"
        proof (cases "i < start")
          case True
          with i below show ?thesis by simp
        next
          case False
          with i have s: "start' = mid + 1" and np: "position n < p"
            by (auto simp: start'_def split: if_splits)
          show ?thesis
          proof (cases "i = mid")
            case True
            with np show ?thesis by (simp add: n_def)
          next
            case False
            with i s have "i < mid" by simp
            with i hi "1.prems"(4) sorted
            have "position (buf ! nat i) < position (buf ! nat mid)"
              by simp
            with np show ?thesis by (simp add: n_def)
          qed
        qed
      qed
      show "\<forall>i. endx' < i \<and> i < len \<longrightarrow> p < position (buf ! nat i)"
      proof (intro allI impI)
        fix i assume i: "endx' < i \<and> i < len"
        show "p < position (buf ! nat i)"
        proof (cases "endx < i")
          case True
          with i above show ?thesis by simp
        next
          case False
          with i have e: "endx' = mid - 1" and np: "p < position n"
            by (auto simp: endx'_def split: if_splits)
          show ?thesis
          proof (cases "i = mid")
            case True
            with np show ?thesis by (simp add: n_def)
          next
            case False
            with i e have "mid < i" by simp
            with i lo "1.prems"(2) sorted
            have "position (buf ! nat mid) < position (buf ! nat i)"
              by simp
            with np show ?thesis by (simp add: n_def)
          qed
        qed
      qed
      show "\<forall>i. start' \<le> i \<and> i \<le> endx' \<longrightarrow> position (buf ! nat i) \<noteq> p"
        using absent lo hi by (auto simp: start'_def endx'_def split: if_splits)
    qed
    with step show ?thesis by simp
  qed
qed

lemma binary_search_loop_present:
  assumes "ns = Some buf" and "0 \<le> start" and "endx < len" and "len \<le> int (length buf)"
    and "\<forall>i j. 0 \<le> i \<and> i < j \<and> j < len \<longrightarrow> position (buf ! nat i) < position (buf ! nat j)"
    and "start \<le> k" and "k \<le> endx" and "position (buf ! nat k) = p"
  shows "\<exists>s. binary_search_loop ns p start endx = Inr (True, s) \<and> start \<le> s \<and> s \<le> k"
  using assms
proof (induction ns p start endx rule: binary_search_loop.induct)
  case (1 ns p start endx)
  note sorted = "1.prems"(5) and k = "1.prems"(6,7,8) and kin = "1.prems"(6,7)
  from k have True: "start \<le> endx"
    by simp
  define mid where "mid = (endx - start) sdiv 2 + start"
  from True have "mid = (endx - start) div 2 + start"
    by (simp add: mid_def sdiv_2_nonneg)
  with True have lo: "start \<le> mid" and hi: "mid \<le> endx"
    by simp_all
  define n where "n = buf ! nat mid"
  from lo hi "1.prems"(1,2,3,4) have rd: "node_read ns mid = Inr n"
    by (simp add: node_read_def n_def)
  show ?case
  proof (cases "position n = p")
    case True
    with k binary_search_loop_round [OF \<open>start \<le> endx\<close> rd [unfolded mid_def], of p]
    show ?thesis by simp
  next
    case ne: False
    define endx' where "endx' = (if position n > p then mid - 1 else endx)"
    define start' where
      "start' = (if \<not> position n > p \<and> position n < p then mid + 1 else start)"
    have step: "binary_search_loop ns p start endx = binary_search_loop ns p start' endx'"
      using ne binary_search_loop_round [OF True rd [unfolded mid_def], of p]
      by (auto simp: mid_def start'_def endx'_def)
    have km: "k \<noteq> mid"
      using ne k by (auto simp: n_def)
    have above: "p < position n \<Longrightarrow> k < mid"
    proof (rule ccontr)
      assume a: "p < position n" and "\<not> k < mid"
      with km have "mid < k" by simp
      with lo hi kin "1.prems"(2,3) sorted
      have "position (buf ! nat mid) < position (buf ! nat k)"
        by simp
      with a k show False by (simp add: n_def)
    qed
    have below: "position n < p \<Longrightarrow> mid < k"
    proof (rule ccontr)
      assume a: "position n < p" and "\<not> mid < k"
      with km have "k < mid" by simp
      with lo hi kin "1.prems"(2,3) sorted
      have "position (buf ! nat k) < position (buf ! nat mid)"
        by simp
      with a k show False by (simp add: n_def)
    qed
    have "\<exists>s. binary_search_loop ns p start' endx' = Inr (True, s) \<and> start' \<le> s \<and> s \<le> k"
    proof (rule "1.IH" [OF mid_def True rd ne endx'_def start'_def])
      show "ns = Some buf" by (rule "1.prems")
      show "0 \<le> start'" using "1.prems"(2) lo by (simp add: start'_def)
      show "endx' < len" using "1.prems"(3) hi by (simp add: endx'_def)
      show "len \<le> int (length buf)" by (rule "1.prems")
      show "\<forall>i j. 0 \<le> i \<and> i < j \<and> j < len
          \<longrightarrow> position (buf ! nat i) < position (buf ! nat j)"
        by (rule sorted)
      show "start' \<le> k" using k below by (auto simp: start'_def)
      show "k \<le> endx'" using k above by (auto simp: endx'_def)
      show "position (buf ! nat k) = p" by (rule k)
    qed
    then obtain s where "binary_search_loop ns p start' endx' = Inr (True, s)"
      and "start' \<le> s" and "s \<le> k"
      by blast
    moreover from lo have "start \<le> start'"
      by (simp add: start'_def)
    ultimately show ?thesis
      using step by auto
  qed
qed

lemma binary_search_loop_empty:
  "binary_search_loop ns p start (start - 1) = Inr (False, start)"
  using binary_search_loop_exhausted [of "start - 1" start ns p]
  by (simp add: signed_divide_int_def)

lemma ring_sorted_nth:
  assumes buf: "nodes ch = Some buf" and wf: "ring_wf ch" and sorted: "sortedness ch"
  shows "\<forall>i j. 0 \<le> i \<and> i < j \<and> j < nodes_len ch
           \<longrightarrow> position (buf ! nat i) < position (buf ! nat j)"
proof (intro allI impI)
  fix i j :: int
  assume ij: "0 \<le> i \<and> i < j \<and> j < nodes_len ch"
  let ?xs = "map position (take (nat (nodes_len ch)) buf)"
  from wf buf have len: "nodes_len ch \<le> int (length buf)"
    by (simp add: ring_wf_def)
  from sorted buf have "sorted_wrt (<) ?xs"
    by (simp add: sortedness_def ring_nodes_def successively_conv_sorted_wrt)
  moreover from ij len have "nat i < nat j" and "nat j < length ?xs"
    by simp_all
  ultimately have "?xs ! nat i < ?xs ! nat j"
    by (rule sorted_wrt_nth_less)
  with ij len show "position (buf ! nat i) < position (buf ! nat j)"
    by simp
qed

lemma ring_nodes_nth:
  assumes "nodes ch = Some buf" and "ring_wf ch"
  shows "length (ring_nodes ch) = nat (nodes_len ch)"
    and "i < nat (nodes_len ch) \<Longrightarrow> ring_nodes ch ! i = buf ! i"
  using assms by (auto simp: ring_nodes_def ring_wf_def)

text \<open>
  On a sorted ring a miss reports the lower bound: the entries before the index are
  below the position, the entries from the index on are above it.
\<close>

lemma binary_search_sorted_miss:
  assumes wf: "ring_wf ch" and rs: "ring_size ch \<noteq> 0" and sorted: "sortedness ch"
    and absent: "node_hash mod ring_size ch \<notin> set (map position (ring_nodes ch))"
  shows "\<exists>m. consistent_hasher_binary_search ch node_hash = Inr (False, m)
           \<and> 0 \<le> m \<and> m \<le> nodes_len ch
           \<and> (\<forall>i. i < nat m
                 \<longrightarrow> position (ring_nodes ch ! i) < node_hash mod ring_size ch)
           \<and> (\<forall>i. nat m \<le> i \<and> i < length (ring_nodes ch)
                 \<longrightarrow> node_hash mod ring_size ch < position (ring_nodes ch ! i))"
proof (cases "nodes ch")
  case None
  with wf have "nodes_len ch = 0"
    by (simp add: ring_wf_def)
  with None show ?thesis
    using rs binary_search_loop_empty [of "nodes ch" "node_hash mod ring_size ch" 0]
    by (simp add: consistent_hasher_binary_search_def ring_nodes_def)
next
  case (Some buf)
  let ?p = "node_hash mod ring_size ch"
  from wf Some have len: "0 \<le> nodes_len ch" "nodes_len ch \<le> int (length buf)"
    by (simp_all add: ring_wf_def)
  note nth = ring_nodes_nth [OF Some wf]
  have absent': "\<forall>i. 0 \<le> i \<and> i \<le> nodes_len ch - 1 \<longrightarrow> position (buf ! nat i) \<noteq> ?p"
  proof (intro allI impI)
    fix i :: int
    assume i: "0 \<le> i \<and> i \<le> nodes_len ch - 1"
    then have "nat i < length (ring_nodes ch)"
      by (simp add: nth(1))
    then have "ring_nodes ch ! nat i \<in> set (ring_nodes ch)"
      by (rule nth_mem)
    with absent have "position (ring_nodes ch ! nat i) \<noteq> ?p"
      by (metis image_eqI set_map)
    with i show "position (buf ! nat i) \<noteq> ?p"
      by (simp add: nth(2))
  qed
  have "\<exists>m. binary_search_loop (nodes ch) ?p 0 (nodes_len ch - 1) = Inr (False, m)
      \<and> 0 \<le> m \<and> m \<le> nodes_len ch
      \<and> (\<forall>i. 0 \<le> i \<and> i < m \<longrightarrow> position (buf ! nat i) < ?p)
      \<and> (\<forall>i. m \<le> i \<and> i < nodes_len ch \<longrightarrow> ?p < position (buf ! nat i))"
  proof (rule binary_search_loop_lower_bound [OF Some])
    show "(0::int) \<le> 0" by simp
    show "0 \<le> nodes_len ch - 1 + 1" using len by simp
    show "nodes_len ch - 1 < nodes_len ch" by simp
    show "nodes_len ch \<le> int (length buf)" by (rule len)
    show "\<forall>i j. 0 \<le> i \<and> i < j \<and> j < nodes_len ch
        \<longrightarrow> position (buf ! nat i) < position (buf ! nat j)"
      by (rule ring_sorted_nth [OF Some wf sorted])
    show "\<forall>i. 0 \<le> i \<and> i < 0 \<longrightarrow> position (buf ! nat i) < ?p"
      by (meson not_less)
    show "\<forall>i. nodes_len ch - 1 < i \<and> i < nodes_len ch \<longrightarrow> ?p < position (buf ! nat i)"
      by (intro allI impI) linarith
    show "\<forall>i. 0 \<le> i \<and> i \<le> nodes_len ch - 1 \<longrightarrow> position (buf ! nat i) \<noteq> ?p"
      by (rule absent')
  qed
  then obtain m where m: "binary_search_loop (nodes ch) ?p 0 (nodes_len ch - 1) = Inr (False, m)"
      "0 \<le> m" "m \<le> nodes_len ch"
      "\<forall>i. 0 \<le> i \<and> i < m \<longrightarrow> position (buf ! nat i) < ?p"
      "\<forall>i. m \<le> i \<and> i < nodes_len ch \<longrightarrow> ?p < position (buf ! nat i)"
    by blast
  have "\<forall>i. i < nat m \<longrightarrow> position (ring_nodes ch ! i) < ?p"
  proof (intro allI impI)
    fix i assume i: "i < nat m"
    from m(4) have "0 \<le> int i \<and> int i < m \<longrightarrow> position (buf ! nat (int i)) < ?p"
      by (rule spec)
    with i have "position (buf ! i) < ?p"
      by simp
    moreover from i m(3) have "i < nat (nodes_len ch)"
      by simp
    ultimately show "position (ring_nodes ch ! i) < ?p"
      by (simp add: nth(2))
  qed
  moreover have "\<forall>i. nat m \<le> i \<and> i < length (ring_nodes ch)
      \<longrightarrow> ?p < position (ring_nodes ch ! i)"
  proof (intro allI impI)
    fix i assume i: "nat m \<le> i \<and> i < length (ring_nodes ch)"
    from m(5) have "m \<le> int i \<and> int i < nodes_len ch
        \<longrightarrow> ?p < position (buf ! nat (int i))"
      by (rule spec)
    moreover from i have len_i: "i < nat (nodes_len ch)"
      by (simp add: nth(1))
    moreover from i len_i have "m \<le> int i" and "int i < nodes_len ch"
      by linarith+
    ultimately have "?p < position (buf ! i)"
      by simp
    with len_i show "?p < position (ring_nodes ch ! i)"
      by (simp add: nth(2))
  qed
  ultimately show ?thesis
    using m(1,2,3) rs by (simp add: consistent_hasher_binary_search_def)
qed

text \<open>
  On a sorted ring a hit is found, and the index reported is at or before the entry:
  it is the start of the window in which the entry was met.
\<close>

lemma binary_search_sorted_hit:
  assumes wf: "ring_wf ch" and rs: "ring_size ch \<noteq> 0" and sorted: "sortedness ch"
    and k: "k < length (ring_nodes ch)"
    and pos: "position (ring_nodes ch ! k) = node_hash mod ring_size ch"
  shows "\<exists>s. consistent_hasher_binary_search ch node_hash = Inr (True, s)
           \<and> 0 \<le> s \<and> s \<le> int k"
proof (cases "nodes ch")
  case None
  with k show ?thesis
    by (simp add: ring_nodes_def)
next
  case (Some buf)
  from wf Some have len: "0 \<le> nodes_len ch" "nodes_len ch \<le> int (length buf)"
    by (simp_all add: ring_wf_def)
  note nth = ring_nodes_nth [OF Some wf]
  from k pos have "position (buf ! nat (int k)) = node_hash mod ring_size ch"
    by (simp add: nth)
  moreover from k have "int k \<le> nodes_len ch - 1"
    by (simp add: nth(1))
  ultimately show ?thesis
    using binary_search_loop_present
      [OF Some _ _ len(2) ring_sorted_nth [OF Some wf sorted],
        of 0 "nodes_len ch - 1" "int k" "node_hash mod ring_size ch"] rs
    by (simp add: consistent_hasher_binary_search_def)
qed

text \<open>
  The search finds an entry when the slots of the window before it are below the position
  and the slots after it, the last slot of the window apart, are above it.
\<close>

lemma binary_search_loop_finds:
  assumes "ns = Some buf" and "0 \<le> start" and "endx < int (length buf)"
    and "start \<le> k" and "k \<le> endx" and "position (buf ! nat k) = p"
    and "\<forall>i. start \<le> i \<and> i < k \<longrightarrow> position (buf ! nat i) < p"
    and "\<forall>i. k < i \<and> i < endx \<longrightarrow> p < position (buf ! nat i)"
  shows "\<exists>s. binary_search_loop ns p start endx = Inr (True, s)"
  using assms
proof (induction ns p start endx rule: binary_search_loop.induct)
  case (1 ns p start endx)
  note kin = "1.prems"(4,5) and kp = "1.prems"(6) and below = "1.prems"(7)
    and above = "1.prems"(8)
  from kin have True: "start \<le> endx"
    by simp
  define mid where "mid = (endx - start) sdiv 2 + start"
  from True have mid_div: "mid = (endx - start) div 2 + start"
    by (simp add: mid_def sdiv_2_nonneg)
  with True have lo: "start \<le> mid" and hi: "mid \<le> endx"
    by simp_all
  from mid_div have last: "start < endx \<Longrightarrow> mid < endx"
    by simp
  define n where "n = buf ! nat mid"
  from lo hi "1.prems"(1,2,3) have rd: "node_read ns mid = Inr n"
    by (simp add: node_read_def n_def)
  show ?case
  proof (cases "position n = p")
    case True
    with binary_search_loop_round [OF \<open>start \<le> endx\<close> rd [unfolded mid_def], of p]
    show ?thesis by simp
  next
    case ne: False
    with kp have km: "k \<noteq> mid"
      by (auto simp: n_def)
    with kin lo hi have st: "start < endx"
      by simp
    have side: "(mid < k \<and> position n < p) \<or> (k < mid \<and> p < position n)"
    proof (cases "mid < k")
      case True
      with lo below show ?thesis by (simp add: n_def)
    next
      case False
      with km have "k < mid" by simp
      moreover from last [OF st] have "mid < endx" .
      ultimately show ?thesis using above by (simp add: n_def)
    qed
    define endx' where "endx' = (if position n > p then mid - 1 else endx)"
    define start' where
      "start' = (if \<not> position n > p \<and> position n < p then mid + 1 else start)"
    have step: "binary_search_loop ns p start endx = binary_search_loop ns p start' endx'"
      using ne binary_search_loop_round [OF True rd [unfolded mid_def], of p]
      by (auto simp: mid_def start'_def endx'_def)
    have "\<exists>s. binary_search_loop ns p start' endx' = Inr (True, s)"
    proof (rule "1.IH" [OF mid_def True rd ne endx'_def start'_def])
      show "ns = Some buf" by (rule "1.prems")
      show "0 \<le> start'" using "1.prems"(2) lo by (simp add: start'_def)
      show "endx' < int (length buf)" using "1.prems"(3) hi by (simp add: endx'_def)
      show "start' \<le> k" using kin side by (auto simp: start'_def)
      show "k \<le> endx'" using kin side by (auto simp: endx'_def)
      show "position (buf ! nat k) = p" by (rule kp)
      show "\<forall>i. start' \<le> i \<and> i < k \<longrightarrow> position (buf ! nat i) < p"
        using below lo by (auto simp: start'_def)
      show "\<forall>i. k < i \<and> i < endx' \<longrightarrow> p < position (buf ! nat i)"
        using above hi by (auto simp: endx'_def)
    qed
    with step show ?thesis by simp
  qed
qed

section \<open>Well-formed rings\<close>

lemma node_write_in_bounds:
  "node_write buf i n = Inr r \<Longrightarrow> 0 \<le> i \<and> i < int (length buf)"
  by (simp add: node_write_def split: if_splits)

lemma node_write_length: "node_write buf i n = Inr r \<Longrightarrow> length r = length buf"
  by (auto simp: node_write_def split: if_splits)

lemma insert_copy_loop_length:
  "insert_copy_loop old_nodes new_nodes index capacity i = Inr r
     \<Longrightarrow> length r = length new_nodes"
proof (induction old_nodes new_nodes index capacity i rule: insert_copy_loop.induct)
  case (1 old_nodes new_nodes index capacity i)
  show ?case
  proof (cases "i < capacity")
    case False
    with "1.prems" show ?thesis
      by (subst (asm) insert_copy_loop.simps) simp
  next
    case True
    from "1.prems" True obtain n new_nodes' where
      rd: "node_read (Some old_nodes) i = Inr n"
      and wr: "node_write new_nodes (if i \<ge> index \<and> i < capacity then i + 1 else i) n
          = Inr new_nodes'"
      and rest: "insert_copy_loop old_nodes new_nodes' index capacity (i + 1) = Inr r"
      by (subst (asm) insert_copy_loop.simps) (auto split: sum.splits)
    from "1.IH" [OF True rd wr rest] node_write_length [OF wr] show ?thesis
      by simp
  qed
qed

lemma insert_shift_loop_length:
  "insert_shift_loop buf index i = Inr r \<Longrightarrow> length r = length buf"
proof (induction buf index i rule: insert_shift_loop.induct)
  case (1 buf index i)
  show ?case
  proof (cases "i > index + 1")
    case False
    with "1.prems" show ?thesis
      by (subst (asm) insert_shift_loop.simps) simp
  next
    case True
    from "1.prems" True obtain n buf' where
      rd: "node_read (Some buf) (i - 1) = Inr n"
      and wr: "node_write buf i n = Inr buf'"
      and rest: "insert_shift_loop buf' index (i - 1) = Inr r"
      by (subst (asm) insert_shift_loop.simps) (auto split: sum.splits)
    from "1.IH" [OF True rd wr rest] node_write_length [OF wr] show ?thesis
      by simp
  qed
qed

lemma delete_copy_loop_length:
  "delete_copy_loop old_nodes new_nodes index len i = Inr r
     \<Longrightarrow> length r = length new_nodes"
proof (induction old_nodes new_nodes index len i rule: delete_copy_loop.induct)
  case (1 old_nodes new_nodes index len i)
  show ?case
  proof (cases "i < len - 1")
    case False
    with "1.prems" show ?thesis
      by (subst (asm) delete_copy_loop.simps) simp
  next
    case True
    from "1.prems" True obtain n new_nodes' where
      rd: "node_read (Some old_nodes) (if i < index then i else i + 1) = Inr n"
      and wr: "node_write new_nodes i n = Inr new_nodes'"
      and rest: "delete_copy_loop old_nodes new_nodes' index len (i + 1) = Inr r"
      by (subst (asm) delete_copy_loop.simps) (auto split: sum.splits)
    from "1.IH" [OF True rd wr rest] node_write_length [OF wr] show ?thesis
      by simp
  qed
qed

lemma delete_shift_loop_length:
  "delete_shift_loop buf len i = Inr r \<Longrightarrow> length r = length buf"
proof (induction buf len i rule: delete_shift_loop.induct)
  case (1 buf len i)
  show ?case
  proof (cases "i < len - 2")
    case False
    with "1.prems" show ?thesis
      by (subst (asm) delete_shift_loop.simps) simp
  next
    case True
    from "1.prems" True obtain n buf' where
      rd: "node_read (Some buf) (i + 1) = Inr n"
      and wr: "node_write buf i n = Inr buf'"
      and rest: "delete_shift_loop buf' len (i + 1) = Inr r"
      by (subst (asm) delete_shift_loop.simps) (auto split: sum.splits)
    from "1.IH" [OF True rd wr rest] node_write_length [OF wr] show ?thesis
      by simp
  qed
qed

lemma binary_search_found_nonempty:
  assumes "consistent_hasher_binary_search ch h = Inr (True, s)"
  shows "1 \<le> nodes_len ch"
proof (rule ccontr)
  assume "\<not> 1 \<le> nodes_len ch"
  then have "nodes_len ch - 1 < 0"
    by simp
  from binary_search_loop_exhausted [OF this, of "nodes ch" "h mod ring_size ch"] assms
  show False
    by (simp add: consistent_hasher_binary_search_def Let_def split: if_splits)
qed

lemma CALLOC_length:
  "CONSISTENT_HASHER_CALLOC ok n = Some buf \<Longrightarrow> 0 \<le> n \<and> int (length buf) = n"
  by (auto simp: CONSISTENT_HASHER_CALLOC_def split: if_splits)

text \<open>
  A call that returns keeps the ring well-formed: the length stays within the capacity,
  and the capacity stays the number of allocated slots. This says nothing of a call that
  runs into undefined behaviour; the insert into a buffer of zero slots is one.
\<close>

lemma insert_node_ring_wf:
  assumes wf: "ring_wf ch"
    and ret: "consistent_hasher_insert_node icap ok (Some ch) h = Inr (e, chp')"
  shows "\<exists>ch'. chp' = Some ch' \<and> ring_wf ch' \<and> ring_size ch' = ring_size ch"
proof (cases "nodes ch")
  case None
  note null = this
  show ?thesis
  proof (cases "CONSISTENT_HASHER_CALLOC ok icap")
    case None
    with ret null wf show ?thesis
      by (auto simp: consistent_hasher_insert_node_def Let_def split: if_splits)
  next
    case (Some buf)
    from ret null Some obtain buf' where
      wr: "node_write buf 0 \<lparr>hash = h, position = h mod ring_size ch\<rparr> = Inr buf'"
      and ch': "chp' = Some (ch\<lparr>nodes := Some buf', nodes_capacity := icap, nodes_len := 1\<rparr>)"
      by (auto simp: consistent_hasher_insert_node_def Let_def split: if_splits sum.splits)
    from node_write_in_bounds [OF wr] have "0 < int (length buf)"
      by linarith
    then have "1 \<le> int (length buf)"
      by linarith
    with CALLOC_length [OF Some] node_write_length [OF wr] ch' show ?thesis
      by (auto simp: ring_wf_def)
  qed
next
  case (Some buf)
  with wf have len: "0 \<le> nodes_len ch" "nodes_len ch \<le> nodes_capacity ch"
      "nodes_capacity ch = int (length buf)"
    by (simp_all add: ring_wf_def)
  from ret Some obtain found index where
    bs: "consistent_hasher_binary_search ch h = Inr (found, index)"
    by (auto simp: consistent_hasher_insert_node_def Let_def split: if_splits sum.splits)
  show ?thesis
  proof (cases found)
    case True
    with ret Some bs wf show ?thesis
      by (auto simp: consistent_hasher_insert_node_def Let_def split: if_splits)
  next
    case False
    show ?thesis
    proof (cases "nodes_capacity ch = nodes_len ch")
      case full: True
      show ?thesis
      proof (cases "CONSISTENT_HASHER_CALLOC ok (nodes_capacity ch * 2)")
        case None
        with ret Some bs False full wf show ?thesis
          by (auto simp: consistent_hasher_insert_node_def Let_def split: if_splits)
      next
        case (Some new_nodes)
        from CALLOC_length [OF this] have nl: "int (length new_nodes) = nodes_capacity ch * 2"
          by simp
        from ret \<open>nodes ch = Some buf\<close> bs False full Some
        obtain new_nodes' new_nodes'' where
          cp: "insert_copy_loop buf new_nodes index (nodes_capacity ch) 0 = Inr new_nodes'"
          and wr: "node_write new_nodes' index
              \<lparr>hash = h, position = h mod ring_size ch\<rparr> = Inr new_nodes''"
          and ch': "chp' = Some (ch\<lparr>nodes := Some new_nodes'',
              nodes_capacity := nodes_capacity ch * 2, nodes_len := nodes_len ch + 1\<rparr>)"
          by (auto simp: consistent_hasher_insert_node_def Let_def
              split: if_splits sum.splits)
        from node_write_in_bounds [OF wr] have "0 < int (length new_nodes')"
          by linarith
        with insert_copy_loop_length [OF cp] nl have "1 \<le> nodes_capacity ch"
          by linarith
        with full len insert_copy_loop_length [OF cp] node_write_length [OF wr] nl ch'
        show ?thesis
          by (simp add: ring_wf_def)
      qed
    next
      case room: False
      from ret Some bs False room
      obtain buf' buf'' where
        sh: "insert_shift_loop buf index (nodes_len ch - 1) = Inr buf'"
        and wr: "node_write buf' index \<lparr>hash = h, position = h mod ring_size ch\<rparr> = Inr buf''"
        and ch': "chp' = Some (ch\<lparr>nodes := Some buf'', nodes_len := nodes_len ch + 1\<rparr>)"
        by (auto simp: consistent_hasher_insert_node_def Let_def
            split: if_splits sum.splits)
      with room len insert_shift_loop_length [OF sh] node_write_length [OF wr]
      show ?thesis
        by (simp add: ring_wf_def)
    qed
  qed
qed

lemma delete_node_ring_wf:
  assumes wf: "ring_wf ch"
    and ret: "consistent_hasher_delete_node ok (Some ch) h = Inr (e, chp')"
  shows "\<exists>ch'. chp' = Some ch' \<and> ring_wf ch' \<and> ring_size ch' = ring_size ch"
proof -
  from ret obtain found index where
    bs: "consistent_hasher_binary_search ch h = Inr (found, index)"
    by (auto simp: consistent_hasher_delete_node_def Let_def split: sum.splits)
  show ?thesis
  proof (cases found)
    case False
    with ret bs wf show ?thesis
      by (auto simp: consistent_hasher_delete_node_def)
  next
    case True
    with bs have ne: "1 \<le> nodes_len ch"
      by (auto dest: binary_search_found_nonempty)
    with wf obtain buf where buf: "nodes ch = Some buf"
      and len: "nodes_len ch \<le> nodes_capacity ch" "nodes_capacity ch = int (length buf)"
      by (cases "nodes ch") (auto simp: ring_wf_def)
    show ?thesis
    proof (cases "nodes_len ch - 1 = nodes_capacity ch sdiv 2")
      case shrink: True
      show ?thesis
      proof (cases "CONSISTENT_HASHER_CALLOC ok (nodes_len ch - 1)")
        case None
        with ret bs True shrink wf show ?thesis
          by (auto simp: consistent_hasher_delete_node_def)
      next
        case (Some new_nodes)
        from CALLOC_length [OF this] have nl: "int (length new_nodes) = nodes_len ch - 1"
          by simp
        from ret bs True shrink Some buf obtain new_nodes' where
          cp: "delete_copy_loop buf new_nodes index (nodes_len ch) 0 = Inr new_nodes'"
          and ch': "chp' = Some (ch\<lparr>nodes := Some new_nodes',
              nodes_len := nodes_len ch - 1, nodes_capacity := nodes_len ch - 1\<rparr>)"
          by (auto simp: consistent_hasher_delete_node_def Let_def split: sum.splits)
        with ne nl delete_copy_loop_length [OF cp] show ?thesis
          by (simp add: ring_wf_def)
      qed
    next
      case keep: False
      from ret bs True keep buf obtain buf' where
        sh: "delete_shift_loop buf (nodes_len ch) index = Inr buf'"
        and ch': "chp' = Some (ch\<lparr>nodes := Some buf', nodes_len := nodes_len ch - 1\<rparr>)"
        by (auto simp: consistent_hasher_delete_node_def Let_def split: sum.splits)
      with ne len delete_shift_loop_length [OF sh] show ?thesis
        by (simp add: ring_wf_def)
    qed
  qed
qed

lemma new_ring_wf: "\<exists>ch. new_ring rs = Some ch \<and> ring_wf ch \<and> ring_size ch = rs"
  by (simp add: new_ring_def consistent_hasher_init_def ring_wf_def)

lemma run_ops_ring_wf:
  "ring_wf ch \<Longrightarrow> run_ops icap (Some ch) ops = Inr chp'
     \<Longrightarrow> \<exists>ch'. chp' = Some ch' \<and> ring_wf ch' \<and> ring_size ch' = ring_size ch"
proof (induction ops arbitrary: ch)
  case Nil
  then show ?case by auto
next
  case (Cons op ops)
  show ?case
  proof (cases op)
    case (Insert h)
    with Cons.prems(2) obtain e chp1 where
      st: "consistent_hasher_insert_node icap True (Some ch) h = Inr (e, chp1)"
      and rest: "run_ops icap chp1 ops = Inr chp'"
      by (auto split: sum.splits)
    from insert_node_ring_wf [OF Cons.prems(1) st] obtain ch1 where
      "chp1 = Some ch1" "ring_wf ch1" "ring_size ch1 = ring_size ch"
      by blast
    with Cons.IH [of ch1] rest show ?thesis
      by auto
  next
    case (Delete h)
    with Cons.prems(2) obtain e chp1 where
      st: "consistent_hasher_delete_node True (Some ch) h = Inr (e, chp1)"
      and rest: "run_ops icap chp1 ops = Inr chp'"
      by (auto split: sum.splits)
    from delete_node_ring_wf [OF Cons.prems(1) st] obtain ch1 where
      "chp1 = Some ch1" "ring_wf ch1" "ring_size ch1 = ring_size ch"
      by blast
    with Cons.IH [of ch1] rest show ?thesis
      by auto
  qed
qed

section \<open>Insert on a sorted ring\<close>

text \<open>
  What the shift loop of insert does to a buffer: the slots \<open>index + 2\<close> to \<open>i\<close> take
  the value of the slot before them; every other slot is as it was.
\<close>

lemma insert_shift_loop_spec:
  assumes "0 \<le> index" and "i < int (length buf)"
  shows "\<exists>r. insert_shift_loop buf index i = Inr r \<and> length r = length buf
           \<and> (\<forall>j. index + 2 \<le> j \<and> j \<le> i \<longrightarrow> r ! nat j = buf ! nat (j - 1))
           \<and> (\<forall>j. 0 \<le> j \<and> (j < index + 2 \<or> i < j) \<longrightarrow> r ! nat j = buf ! nat j)"
  using assms
proof (induction buf index i rule: insert_shift_loop.induct)
  case (1 buf index i)
  show ?case
  proof (cases "i > index + 1")
    case False
    then have "insert_shift_loop buf index i = Inr buf"
      by (subst insert_shift_loop.simps) simp
    with False show ?thesis
      by simp
  next
    case True
    define n where "n = buf ! nat (i - 1)"
    define buf1 where "buf1 = buf[nat i := n]"
    from True "1.prems" have rd: "node_read (Some buf) (i - 1) = Inr n"
      by (simp add: node_read_def n_def)
    from True "1.prems" have wr: "node_write buf i n = Inr buf1"
      by (simp add: node_write_def buf1_def)
    have step: "insert_shift_loop buf index i = insert_shift_loop buf1 index (i - 1)"
      using True rd wr by (subst insert_shift_loop.simps) simp
    from "1.prems" have "i - 1 < int (length buf1)"
      by (simp add: buf1_def)
    from "1.IH" [OF True rd wr "1.prems"(1) this]
    obtain r where r: "insert_shift_loop buf1 index (i - 1) = Inr r"
        "length r = length buf1"
        "\<forall>j. index + 2 \<le> j \<and> j \<le> i - 1 \<longrightarrow> r ! nat j = buf1 ! nat (j - 1)"
        "\<forall>j. 0 \<le> j \<and> (j < index + 2 \<or> i - 1 < j) \<longrightarrow> r ! nat j = buf1 ! nat j"
      by blast
    have moved: "\<forall>j. index + 2 \<le> j \<and> j \<le> i \<longrightarrow> r ! nat j = buf ! nat (j - 1)"
    proof (intro allI impI)
      fix j assume j: "index + 2 \<le> j \<and> j \<le> i"
      show "r ! nat j = buf ! nat (j - 1)"
      proof (cases "j = i")
        case True
        with r(4) "1.prems" j have "r ! nat j = buf1 ! nat i"
          by simp
        with True "1.prems" j show ?thesis
          by (simp add: buf1_def n_def)
      next
        case False
        with j r(3) have "r ! nat j = buf1 ! nat (j - 1)"
          by simp
        moreover from j "1.prems" have "nat (j - 1) \<noteq> nat i"
          by arith
        ultimately show ?thesis
          by (simp add: buf1_def)
      qed
    qed
    have kept: "\<forall>j. 0 \<le> j \<and> (j < index + 2 \<or> i < j) \<longrightarrow> r ! nat j = buf ! nat j"
    proof (intro allI impI)
      fix j assume j: "0 \<le> j \<and> (j < index + 2 \<or> i < j)"
      with r(4) have "r ! nat j = buf1 ! nat j"
        by auto
      moreover from j True "1.prems" have "nat j \<noteq> nat i"
        by arith
      ultimately show "r ! nat j = buf ! nat j"
        by (simp add: buf1_def)
    qed
    from step r(1,2) moved kept show ?thesis
      by (simp add: buf1_def)
  qed
qed

text \<open>
  What the copy loop of insert does: the old slots from \<open>i\<close> on that lie before the
  index are copied in place, those at or after it one slot to the right; every other
  slot of the new buffer is as it was.
\<close>

lemma insert_copy_loop_spec:
  assumes "0 \<le> i" and "capacity \<le> int (length old_nodes)"
    and "capacity < int (length new_nodes)"
  shows "\<exists>r. insert_copy_loop old_nodes new_nodes index capacity i = Inr r
           \<and> length r = length new_nodes
           \<and> (\<forall>j. i \<le> j \<and> j < capacity \<and> j < index \<longrightarrow> r ! nat j = old_nodes ! nat j)
           \<and> (\<forall>j. i \<le> j \<and> j < capacity \<and> index \<le> j
                 \<longrightarrow> r ! nat (j + 1) = old_nodes ! nat j)
           \<and> (\<forall>j. 0 \<le> j \<and> \<not> (i \<le> j \<and> j < capacity \<and> j < index)
                     \<and> \<not> (i < j \<and> j \<le> capacity \<and> index < j)
                 \<longrightarrow> r ! nat j = new_nodes ! nat j)"
  using assms
proof (induction old_nodes new_nodes index capacity i rule: insert_copy_loop.induct)
  case (1 old_nodes new_nodes index capacity i)
  show ?case
  proof (cases "i < capacity")
    case False
    then have "insert_copy_loop old_nodes new_nodes index capacity i = Inr new_nodes"
      by (subst insert_copy_loop.simps) simp
    with False show ?thesis
      by auto
  next
    case True
    define n where "n = old_nodes ! nat i"
    define d where "d = (if i \<ge> index \<and> i < capacity then i + 1 else i)"
    define new1 where "new1 = new_nodes[nat d := n]"
    from True "1.prems" have rd: "node_read (Some old_nodes) i = Inr n"
      by (simp add: node_read_def n_def)
    from True "1.prems" have d_in: "0 \<le> d" "d < int (length new_nodes)"
      by (simp_all add: d_def)
    then have wr: "node_write new_nodes d n = Inr new1"
      by (simp add: node_write_def new1_def)
    have step: "insert_copy_loop old_nodes new_nodes index capacity i
        = insert_copy_loop old_nodes new1 index capacity (i + 1)"
      using True rd wr [unfolded d_def] by (subst insert_copy_loop.simps) simp
    from "1.prems" have p1: "0 \<le> i + 1" and p3: "capacity < int (length new1)"
      by (simp_all add: new1_def)
    from "1.IH" [OF True rd wr [unfolded d_def] p1 "1.prems"(2) p3]
    obtain r where r: "insert_copy_loop old_nodes new1 index capacity (i + 1) = Inr r"
        "length r = length new1"
        "\<forall>j. i + 1 \<le> j \<and> j < capacity \<and> j < index \<longrightarrow> r ! nat j = old_nodes ! nat j"
        "\<forall>j. i + 1 \<le> j \<and> j < capacity \<and> index \<le> j
            \<longrightarrow> r ! nat (j + 1) = old_nodes ! nat j"
        "\<forall>j. 0 \<le> j \<and> \<not> (i + 1 \<le> j \<and> j < capacity \<and> j < index)
                \<and> \<not> (i + 1 < j \<and> j \<le> capacity \<and> index < j)
            \<longrightarrow> r ! nat j = new1 ! nat j"
      by blast
    have at_d: "r ! nat d = n"
    proof -
      from d_in "1.prems"(1) have "0 \<le> d \<and> \<not> (i + 1 \<le> d \<and> d < capacity \<and> d < index)
          \<and> \<not> (i + 1 < d \<and> d \<le> capacity \<and> index < d)"
        by (auto simp: d_def split: if_splits)
      with r(5) have "r ! nat d = new1 ! nat d"
        by blast
      with d_in show ?thesis
        by (simp add: new1_def)
    qed
    have before: "\<forall>j. i \<le> j \<and> j < capacity \<and> j < index \<longrightarrow> r ! nat j = old_nodes ! nat j"
    proof (intro allI impI)
      fix j assume j: "i \<le> j \<and> j < capacity \<and> j < index"
      show "r ! nat j = old_nodes ! nat j"
      proof (cases "j = i")
        case True
        with j have "d = i" by (simp add: d_def)
        with at_d True show ?thesis by (simp add: n_def)
      next
        case False
        with j r(3) show ?thesis by simp
      qed
    qed
    have after: "\<forall>j. i \<le> j \<and> j < capacity \<and> index \<le> j
        \<longrightarrow> r ! nat (j + 1) = old_nodes ! nat j"
    proof (intro allI impI)
      fix j assume j: "i \<le> j \<and> j < capacity \<and> index \<le> j"
      show "r ! nat (j + 1) = old_nodes ! nat j"
      proof (cases "j = i")
        case True
        with j have "d = i + 1" by (simp add: d_def)
        with at_d True show ?thesis by (simp add: n_def)
      next
        case False
        with j r(4) show ?thesis by simp
      qed
    qed
    have kept: "\<forall>j. 0 \<le> j \<and> \<not> (i \<le> j \<and> j < capacity \<and> j < index)
          \<and> \<not> (i < j \<and> j \<le> capacity \<and> index < j)
        \<longrightarrow> r ! nat j = new_nodes ! nat j"
    proof (intro allI impI)
      fix j assume j: "0 \<le> j \<and> \<not> (i \<le> j \<and> j < capacity \<and> j < index)
          \<and> \<not> (i < j \<and> j \<le> capacity \<and> index < j)"
      then have "0 \<le> j \<and> \<not> (i + 1 \<le> j \<and> j < capacity \<and> j < index)
          \<and> \<not> (i + 1 < j \<and> j \<le> capacity \<and> index < j)"
        by auto
      with r(5) have "r ! nat j = new1 ! nat j"
        by blast
      moreover from j True "1.prems"(1) have "j \<noteq> d"
        by (auto simp: d_def split: if_splits)
      with j d_in(1) have "nat j \<noteq> nat d"
        by arith
      ultimately show "r ! nat j = new_nodes ! nat j"
        by (simp add: new1_def)
    qed
    from step r(1,2) before after kept show ?thesis
      by (simp add: new1_def)
  qed
qed

text \<open>The three ways in which an insert returns OK.\<close>

lemma insert_node_OK_cases:
  assumes "consistent_hasher_insert_node icap ok (Some ch) h = Inr (CONSISTENT_HASHER_OK, chp')"
  obtains
    (first) buf buf' where "nodes ch = None"
      and "CONSISTENT_HASHER_CALLOC ok icap = Some buf"
      and "node_write buf 0 \<lparr>hash = h, position = h mod ring_size ch\<rparr> = Inr buf'"
      and "chp' = Some (ch\<lparr>nodes := Some buf', nodes_capacity := icap, nodes_len := 1\<rparr>)"
  | (resize) buf index new_nodes new_nodes' new_nodes'' where "nodes ch = Some buf"
      and "consistent_hasher_binary_search ch h = Inr (False, index)"
      and "nodes_capacity ch = nodes_len ch"
      and "CONSISTENT_HASHER_CALLOC ok (nodes_capacity ch * 2) = Some new_nodes"
      and "insert_copy_loop buf new_nodes index (nodes_capacity ch) 0 = Inr new_nodes'"
      and "node_write new_nodes' index \<lparr>hash = h, position = h mod ring_size ch\<rparr>
            = Inr new_nodes''"
      and "chp' = Some (ch\<lparr>nodes := Some new_nodes'',
            nodes_capacity := nodes_capacity ch * 2, nodes_len := nodes_len ch + 1\<rparr>)"
  | (shift) buf index buf' buf'' where "nodes ch = Some buf"
      and "consistent_hasher_binary_search ch h = Inr (False, index)"
      and "nodes_capacity ch \<noteq> nodes_len ch"
      and "insert_shift_loop buf index (nodes_len ch - 1) = Inr buf'"
      and "node_write buf' index \<lparr>hash = h, position = h mod ring_size ch\<rparr> = Inr buf''"
      and "chp' = Some (ch\<lparr>nodes := Some buf'', nodes_len := nodes_len ch + 1\<rparr>)"
proof (cases "nodes ch")
  case None
  with assms first show ?thesis
    by (auto simp: consistent_hasher_insert_node_def Let_def
        split: if_splits option.splits sum.splits)
next
  case (Some buf)
  with assms obtain found index where
    bs: "consistent_hasher_binary_search ch h = Inr (found, index)"
    by (auto simp: consistent_hasher_insert_node_def Let_def split: if_splits sum.splits)
  with assms Some have nf: "\<not> found"
    by (auto simp: consistent_hasher_insert_node_def Let_def split: if_splits)
  show ?thesis
  proof (cases "nodes_capacity ch = nodes_len ch")
    case True
    with assms Some bs nf resize show ?thesis
      by (auto simp: consistent_hasher_insert_node_def Let_def
          split: if_splits option.splits sum.splits)
  next
    case False
    with assms Some bs nf shift show ?thesis
      by (auto simp: consistent_hasher_insert_node_def Let_def
          split: if_splits option.splits sum.splits)
  qed
qed

text \<open>
  After an insert at a free position of a sorted ring has returned OK, the new node sits
  at some index \<open>k\<close> within the old length, the slots before it are below its position
  and the slots after it, up to the old length, are above it. This holds on all three
  paths, although the path without resize loses entries.
\<close>

lemma insert_ok_places_node:
  assumes wf: "ring_wf ch" and rs: "ring_size ch \<noteq> 0" and sorted: "sortedness ch"
    and free: "h mod ring_size ch \<notin> set (map position (ring_nodes ch))"
    and ins: "consistent_hasher_insert_node icap ok (Some ch) h
        = Inr (CONSISTENT_HASHER_OK, Some ch')"
  shows "\<exists>buf' k. nodes ch' = Some buf' \<and> ring_size ch' = ring_size ch
           \<and> nodes_len ch' = nodes_len ch + 1 \<and> nodes_len ch' \<le> int (length buf')
           \<and> 0 \<le> k \<and> k \<le> nodes_len ch
           \<and> position (buf' ! nat k) = h mod ring_size ch
           \<and> (\<forall>i. 0 \<le> i \<and> i < k \<longrightarrow> position (buf' ! nat i) < h mod ring_size ch)
           \<and> (\<forall>i. k < i \<and> i < nodes_len ch
                 \<longrightarrow> h mod ring_size ch < position (buf' ! nat i))"
proof -
  let ?p = "h mod ring_size ch"
  let ?new = "\<lparr>hash = h, position = ?p\<rparr>"
  from insert_node_ring_wf [OF wf ins] have wf': "ring_wf ch'"
    by simp
  have miss: "nodes ch = Some buf \<Longrightarrow>
      consistent_hasher_binary_search ch h = Inr (False, index) \<Longrightarrow>
      0 \<le> index \<and> index \<le> nodes_len ch
      \<and> (\<forall>i. 0 \<le> i \<and> i < index \<longrightarrow> position (buf ! nat i) < ?p)
      \<and> (\<forall>i. index \<le> i \<and> i < nodes_len ch \<longrightarrow> ?p < position (buf ! nat i))"
    for buf index
  proof -
    assume buf: "nodes ch = Some buf"
      and bs: "consistent_hasher_binary_search ch h = Inr (False, index)"
    note nth = ring_nodes_nth [OF buf wf]
    from binary_search_sorted_miss [OF wf rs sorted free] bs
    have m: "0 \<le> index" "index \<le> nodes_len ch"
        "\<forall>i. i < nat index \<longrightarrow> position (ring_nodes ch ! i) < ?p"
        "\<forall>i. nat index \<le> i \<and> i < length (ring_nodes ch) \<longrightarrow> ?p < position (ring_nodes ch ! i)"
      by auto
    have "\<forall>i. 0 \<le> i \<and> i < index \<longrightarrow> position (buf ! nat i) < ?p"
    proof (intro allI impI)
      fix i :: int assume i: "0 \<le> i \<and> i < index"
      with m(3) have "position (ring_nodes ch ! nat i) < ?p"
        by simp
      moreover from i m(2) have "nat i < nat (nodes_len ch)"
        by simp
      ultimately show "position (buf ! nat i) < ?p"
        by (simp add: nth(2))
    qed
    moreover have "\<forall>i. index \<le> i \<and> i < nodes_len ch \<longrightarrow> ?p < position (buf ! nat i)"
    proof (intro allI impI)
      fix i :: int assume i: "index \<le> i \<and> i < nodes_len ch"
      with m(1) have "nat index \<le> nat i \<and> nat i < length (ring_nodes ch)"
        unfolding nth(1) by arith
      with m(4) have "?p < position (ring_nodes ch ! nat i)"
        by blast
      moreover from i m(1) have "nat i < nat (nodes_len ch)"
        by simp
      ultimately show "?p < position (buf ! nat i)"
        by (simp add: nth(2))
    qed
    ultimately show ?thesis
      using m(1,2) by simp
  qed
  from ins show ?thesis
  proof (cases rule: insert_node_OK_cases)
    case (first buf buf')
    from wf first(1) have "nodes_len ch = 0"
      by (simp add: ring_wf_def)
    moreover from node_write_in_bounds [OF first(3)] first(3)
    have "position (buf' ! nat 0) = ?p"
      by (auto simp: node_write_def)
    moreover from node_write_in_bounds [OF first(3)] node_write_length [OF first(3)]
    have "1 \<le> int (length buf')"
      by linarith
    ultimately have "nodes ch' = Some buf' \<and> ring_size ch' = ring_size ch
        \<and> nodes_len ch' = nodes_len ch + 1 \<and> nodes_len ch' \<le> int (length buf')
        \<and> (0::int) \<le> 0 \<and> 0 \<le> nodes_len ch
        \<and> position (buf' ! nat 0) = ?p
        \<and> (\<forall>i. 0 \<le> i \<and> i < 0 \<longrightarrow> position (buf' ! nat i) < ?p)
        \<and> (\<forall>i. 0 < i \<and> i < nodes_len ch \<longrightarrow> ?p < position (buf' ! nat i))"
      using first(4) by auto
    then show ?thesis
      by blast
  next
    case (resize buf index new_nodes new_nodes' new_nodes'')
    from miss [OF resize(1,2)] have m: "0 \<le> index" "index \<le> nodes_len ch"
        "\<forall>i. 0 \<le> i \<and> i < index \<longrightarrow> position (buf ! nat i) < ?p"
        "\<forall>i. index \<le> i \<and> i < nodes_len ch \<longrightarrow> ?p < position (buf ! nat i)"
      by simp_all
    from wf resize(1) have cap: "nodes_capacity ch = int (length buf)"
      by (simp add: ring_wf_def)
    from CALLOC_length [OF resize(4)]
    have nl: "int (length new_nodes) = nodes_capacity ch * 2"
      by simp
    from node_write_in_bounds [OF resize(6)] insert_copy_loop_length [OF resize(5)] nl
    have cap1: "1 \<le> nodes_capacity ch"
      by linarith
    have "\<exists>r. insert_copy_loop buf new_nodes index (nodes_capacity ch) 0 = Inr r
        \<and> length r = length new_nodes
        \<and> (\<forall>j. 0 \<le> j \<and> j < nodes_capacity ch \<and> j < index \<longrightarrow> r ! nat j = buf ! nat j)
        \<and> (\<forall>j. 0 \<le> j \<and> j < nodes_capacity ch \<and> index \<le> j
              \<longrightarrow> r ! nat (j + 1) = buf ! nat j)
        \<and> (\<forall>j. 0 \<le> j \<and> \<not> (0 \<le> j \<and> j < nodes_capacity ch \<and> j < index)
                  \<and> \<not> (0 < j \<and> j \<le> nodes_capacity ch \<and> index < j)
              \<longrightarrow> r ! nat j = new_nodes ! nat j)"
    proof (rule insert_copy_loop_spec)
      show "(0::int) \<le> 0" by simp
      show "nodes_capacity ch \<le> int (length buf)" using cap by simp
      show "nodes_capacity ch < int (length new_nodes)" using nl cap1 by simp
    qed
    with resize(5) have cp:
        "\<forall>j. 0 \<le> j \<and> j < nodes_capacity ch \<and> j < index
            \<longrightarrow> new_nodes' ! nat j = buf ! nat j"
        "\<forall>j. 0 \<le> j \<and> j < nodes_capacity ch \<and> index \<le> j
            \<longrightarrow> new_nodes' ! nat (j + 1) = buf ! nat j"
      by auto
    from resize(6) node_write_in_bounds [OF resize(6)]
    have buf'': "new_nodes'' = new_nodes'[nat index := ?new]"
      and idx: "index < int (length new_nodes')"
      by (auto simp: node_write_def)
    have at: "position (new_nodes'' ! nat index) = ?p"
      using idx m(1) by (simp add: buf'')
    have below: "\<forall>i. 0 \<le> i \<and> i < index \<longrightarrow> position (new_nodes'' ! nat i) < ?p"
    proof (intro allI impI)
      fix i :: int assume i: "0 \<le> i \<and> i < index"
      with m(2) resize(3) cp(1) have "new_nodes' ! nat i = buf ! nat i"
        by simp
      moreover from i have "nat i \<noteq> nat index"
        by arith
      ultimately show "position (new_nodes'' ! nat i) < ?p"
        using m(3) i by (simp add: buf'')
    qed
    have above: "\<forall>i. index < i \<and> i < nodes_len ch + 1
        \<longrightarrow> ?p < position (new_nodes'' ! nat i)"
    proof (intro allI impI)
      fix i :: int assume i: "index < i \<and> i < nodes_len ch + 1"
      with m(1) resize(3) have "0 \<le> i - 1 \<and> i - 1 < nodes_capacity ch \<and> index \<le> i - 1"
        by simp
      with cp(2) have "new_nodes' ! nat (i - 1 + 1) = buf ! nat (i - 1)"
        by blast
      moreover from i m(1) have "nat i \<noteq> nat index"
        by arith
      moreover from i m(4) have "?p < position (buf ! nat (i - 1))"
        by simp
      ultimately show "?p < position (new_nodes'' ! nat i)"
        by (simp add: buf'')
    qed
    from wf' resize(7) have "nodes_len ch + 1 \<le> int (length new_nodes'')"
      by (simp add: ring_wf_def)
    with resize(7) m(1,2) at below above
    have "nodes ch' = Some new_nodes'' \<and> ring_size ch' = ring_size ch
        \<and> nodes_len ch' = nodes_len ch + 1 \<and> nodes_len ch' \<le> int (length new_nodes'')
        \<and> 0 \<le> index \<and> index \<le> nodes_len ch
        \<and> position (new_nodes'' ! nat index) = ?p
        \<and> (\<forall>i. 0 \<le> i \<and> i < index \<longrightarrow> position (new_nodes'' ! nat i) < ?p)
        \<and> (\<forall>i. index < i \<and> i < nodes_len ch \<longrightarrow> ?p < position (new_nodes'' ! nat i))"
      by auto
    then show ?thesis
      by blast
  next
    case (shift buf index buf' buf'')
    from miss [OF shift(1,2)] have m: "0 \<le> index" "index \<le> nodes_len ch"
        "\<forall>i. 0 \<le> i \<and> i < index \<longrightarrow> position (buf ! nat i) < ?p"
        "\<forall>i. index \<le> i \<and> i < nodes_len ch \<longrightarrow> ?p < position (buf ! nat i)"
      by simp_all
    from wf shift(1) have cap: "nodes_len ch \<le> int (length buf)"
      by (simp add: ring_wf_def)
    have "\<exists>r. insert_shift_loop buf index (nodes_len ch - 1) = Inr r
        \<and> length r = length buf
        \<and> (\<forall>j. index + 2 \<le> j \<and> j \<le> nodes_len ch - 1 \<longrightarrow> r ! nat j = buf ! nat (j - 1))
        \<and> (\<forall>j. 0 \<le> j \<and> (j < index + 2 \<or> nodes_len ch - 1 < j)
              \<longrightarrow> r ! nat j = buf ! nat j)"
    proof (rule insert_shift_loop_spec)
      show "0 \<le> index" by (rule m)
      show "nodes_len ch - 1 < int (length buf)" using cap by simp
    qed
    with shift(4) have sh:
        "\<forall>j. index + 2 \<le> j \<and> j \<le> nodes_len ch - 1 \<longrightarrow> buf' ! nat j = buf ! nat (j - 1)"
        "\<forall>j. 0 \<le> j \<and> (j < index + 2 \<or> nodes_len ch - 1 < j) \<longrightarrow> buf' ! nat j = buf ! nat j"
      by auto
    from shift(5) node_write_in_bounds [OF shift(5)]
    have buf'': "buf'' = buf'[nat index := ?new]" and idx: "index < int (length buf')"
      by (auto simp: node_write_def)
    have at: "position (buf'' ! nat index) = ?p"
      using idx m(1) by (simp add: buf'')
    have below: "\<forall>i. 0 \<le> i \<and> i < index \<longrightarrow> position (buf'' ! nat i) < ?p"
    proof (intro allI impI)
      fix i :: int assume i: "0 \<le> i \<and> i < index"
      with sh(2) have "buf' ! nat i = buf ! nat i"
        by simp
      moreover from i have "nat i \<noteq> nat index"
        by arith
      ultimately show "position (buf'' ! nat i) < ?p"
        using m(3) i by (simp add: buf'')
    qed
    have above: "\<forall>i. index < i \<and> i < nodes_len ch \<longrightarrow> ?p < position (buf'' ! nat i)"
    proof (intro allI impI)
      fix i :: int assume i: "index < i \<and> i < nodes_len ch"
      with m(1) have ne: "nat i \<noteq> nat index"
        by arith
      show "?p < position (buf'' ! nat i)"
      proof (cases "i < index + 2")
        case True
        with i m(1) sh(2) have "buf' ! nat i = buf ! nat i"
          by simp
        moreover from i m(4) have "?p < position (buf ! nat i)"
          by simp
        ultimately show ?thesis
          using ne by (simp add: buf'')
      next
        case False
        with i sh(1) have "buf' ! nat i = buf ! nat (i - 1)"
          by simp
        moreover from False i m(4) have "?p < position (buf ! nat (i - 1))"
          by simp
        ultimately show ?thesis
          using ne by (simp add: buf'')
      qed
    qed
    from wf' shift(6) have "nodes_len ch + 1 \<le> int (length buf'')"
      by (simp add: ring_wf_def)
    with shift(6) m(1,2) at below above
    have "nodes ch' = Some buf'' \<and> ring_size ch' = ring_size ch
        \<and> nodes_len ch' = nodes_len ch + 1 \<and> nodes_len ch' \<le> int (length buf'')
        \<and> 0 \<le> index \<and> index \<le> nodes_len ch
        \<and> position (buf'' ! nat index) = ?p
        \<and> (\<forall>i. 0 \<le> i \<and> i < index \<longrightarrow> position (buf'' ! nat i) < ?p)
        \<and> (\<forall>i. index < i \<and> i < nodes_len ch \<longrightarrow> ?p < position (buf'' ! nat i))"
      by auto
    then show ?thesis
      by blast
  qed
qed

text \<open>
  Collision rejection on sorted rings: after an insert at a free position of a
  well-formed sorted ring has returned OK, the insert of any hash with the same position
  is rejected with NODE\_PRESENT and leaves the ring as it is.
\<close>

lemma colliding_insert_rejected_after_sorted:
  assumes wf: "ring_wf ch" and rs: "ring_size ch \<noteq> 0" and sorted: "sortedness ch"
    and free: "a mod ring_size ch \<notin> set (map position (ring_nodes ch))"
    and same: "a mod ring_size ch = b mod ring_size ch"
    and ins: "consistent_hasher_insert_node icap ok (Some ch) a
        = Inr (CONSISTENT_HASHER_OK, Some ch')"
  shows "consistent_hasher_insert_node icap' ok' (Some ch') b
           = Inr (CONSISTENT_HASHER_ERROR_NODE_PRESENT, Some ch')"
proof -
  from insert_ok_places_node [OF wf rs sorted free ins]
  obtain buf' k where buf': "nodes ch' = Some buf'" and rs': "ring_size ch' = ring_size ch"
    and len': "nodes_len ch' = nodes_len ch + 1" "nodes_len ch' \<le> int (length buf')"
    and k: "0 \<le> k" "k \<le> nodes_len ch" "position (buf' ! nat k) = a mod ring_size ch"
      "\<forall>i. 0 \<le> i \<and> i < k \<longrightarrow> position (buf' ! nat i) < a mod ring_size ch"
      "\<forall>i. k < i \<and> i < nodes_len ch \<longrightarrow> a mod ring_size ch < position (buf' ! nat i)"
    by blast
  have "\<exists>s. binary_search_loop (nodes ch') (a mod ring_size ch) 0 (nodes_len ch' - 1)
      = Inr (True, s)"
  proof (rule binary_search_loop_finds [OF buf'])
    show "(0::int) \<le> 0" by simp
    show "nodes_len ch' - 1 < int (length buf')" using len' by simp
    show "0 \<le> k" by (rule k)
    show "k \<le> nodes_len ch' - 1" using k(2) len' by simp
    show "position (buf' ! nat k) = a mod ring_size ch" by (rule k)
    show "\<forall>i. 0 \<le> i \<and> i < k \<longrightarrow> position (buf' ! nat i) < a mod ring_size ch"
      by (rule k)
    show "\<forall>i. k < i \<and> i < nodes_len ch' - 1
        \<longrightarrow> a mod ring_size ch < position (buf' ! nat i)"
      using k(5) len' by simp
  qed
  then obtain s where "consistent_hasher_binary_search ch' b = Inr (True, s)"
    using rs rs' same by (auto simp: consistent_hasher_binary_search_def)
  with buf' rs rs' show ?thesis
    by (simp add: consistent_hasher_insert_node_def)
qed

text \<open>
  An insert at a free position of a well-formed sorted ring returns OK when the
  allocation succeeds, the buffer to allocate or to double has at least one slot, and
  the counters stay within \<^verbatim>\<open>int\<close>.
\<close>

lemma insert_free_position_returns_OK:
  assumes wf: "ring_wf ch" and rs: "ring_size ch \<noteq> 0" and sorted: "sortedness ch"
    and free: "h mod ring_size ch \<notin> set (map position (ring_nodes ch))"
    and icap: "1 \<le> icap"
    and cap: "nodes ch \<noteq> None \<longrightarrow> 1 \<le> nodes_capacity ch"
    and range: "nodes_capacity ch * 2 \<le> INT_MAX"
  shows "\<exists>ch'. consistent_hasher_insert_node icap True (Some ch) h
           = Inr (CONSISTENT_HASHER_OK, Some ch')"
proof (cases "nodes ch")
  case None
  with rs icap show ?thesis
    by (simp add: consistent_hasher_insert_node_def CONSISTENT_HASHER_CALLOC_def
        node_write_def)
next
  case (Some buf)
  with wf cap have len: "0 \<le> nodes_len ch" "nodes_len ch \<le> nodes_capacity ch"
      "nodes_capacity ch = int (length buf)" "1 \<le> nodes_capacity ch"
    by (simp_all add: ring_wf_def)
  from binary_search_sorted_miss [OF wf rs sorted free]
  obtain index where bs: "consistent_hasher_binary_search ch h = Inr (False, index)"
    and idx: "0 \<le> index" "index \<le> nodes_len ch"
    by blast
  show ?thesis
  proof (cases "nodes_capacity ch = nodes_len ch")
    case True
    define new_nodes where "new_nodes = replicate (nat (nodes_capacity ch * 2)) zero_node"
    from len have alloc: "CONSISTENT_HASHER_CALLOC True (nodes_capacity ch * 2) = Some new_nodes"
      by (simp add: CONSISTENT_HASHER_CALLOC_def new_nodes_def)
    have "\<exists>r. insert_copy_loop buf new_nodes index (nodes_capacity ch) 0 = Inr r
        \<and> length r = length new_nodes
        \<and> (\<forall>j. 0 \<le> j \<and> j < nodes_capacity ch \<and> j < index \<longrightarrow> r ! nat j = buf ! nat j)
        \<and> (\<forall>j. 0 \<le> j \<and> j < nodes_capacity ch \<and> index \<le> j
              \<longrightarrow> r ! nat (j + 1) = buf ! nat j)
        \<and> (\<forall>j. 0 \<le> j \<and> \<not> (0 \<le> j \<and> j < nodes_capacity ch \<and> j < index)
                  \<and> \<not> (0 < j \<and> j \<le> nodes_capacity ch \<and> index < j)
              \<longrightarrow> r ! nat j = new_nodes ! nat j)"
    proof (rule insert_copy_loop_spec)
      show "(0::int) \<le> 0" by simp
      show "nodes_capacity ch \<le> int (length buf)" using len by simp
      show "nodes_capacity ch < int (length new_nodes)"
        unfolding new_nodes_def length_replicate using len(4) by linarith
    qed
    then obtain r where cp: "insert_copy_loop buf new_nodes index (nodes_capacity ch) 0 = Inr r"
      and lr: "length r = length new_nodes"
      by blast
    from len(4) have "nodes_capacity ch < int (length new_nodes)"
      unfolding new_nodes_def length_replicate by linarith
    with idx True lr have "0 \<le> index \<and> index < int (length r)"
      by simp
    then have "node_write r index \<lparr>hash = h, position = h mod ring_size ch\<rparr>
        = Inr (r[nat index := \<lparr>hash = h, position = h mod ring_size ch\<rparr>])"
      by (simp add: node_write_def)
    with Some rs bs True range alloc cp show ?thesis
      by (simp add: consistent_hasher_insert_node_def)
  next
    case False
    have "\<exists>r. insert_shift_loop buf index (nodes_len ch - 1) = Inr r
        \<and> length r = length buf
        \<and> (\<forall>j. index + 2 \<le> j \<and> j \<le> nodes_len ch - 1 \<longrightarrow> r ! nat j = buf ! nat (j - 1))
        \<and> (\<forall>j. 0 \<le> j \<and> (j < index + 2 \<or> nodes_len ch - 1 < j)
              \<longrightarrow> r ! nat j = buf ! nat j)"
    proof (rule insert_shift_loop_spec)
      show "0 \<le> index" by (rule idx)
      show "nodes_len ch - 1 < int (length buf)" using len by simp
    qed
    then obtain r where sh: "insert_shift_loop buf index (nodes_len ch - 1) = Inr r"
      and lr: "length r = length buf"
      by blast
    from idx len False lr have "0 \<le> index \<and> index < int (length r)"
      by simp
    then have "node_write r index \<lparr>hash = h, position = h mod ring_size ch\<rparr>
        = Inr (r[nat index := \<lparr>hash = h, position = h mod ring_size ch\<rparr>])"
      by (simp add: node_write_def)
    moreover from len False range have "\<not> nodes_len ch + 1 > INT_MAX"
      by simp
    ultimately show ?thesis
      using Some rs bs False sh by (simp add: consistent_hasher_insert_node_def)
  qed
qed

section \<open>Changes of the capacity\<close>

text \<open>
  When the capacity changes: an insert sets it to the initial capacity for the first
  buffer and doubles it otherwise, and only when it finds the length equal to the
  capacity; a delete changes it only on a hit with the length after removal at half the
  capacity, and then to that length.
\<close>

lemma insert_node_capacity:
  assumes wf: "ring_wf ch"
    and ret: "consistent_hasher_insert_node icap ok (Some ch) h = Inr (e, Some ch')"
    and chg: "nodes_capacity ch' \<noteq> nodes_capacity ch"
  shows "e = CONSISTENT_HASHER_OK \<and> nodes_capacity ch = nodes_len ch
           \<and> nodes_capacity ch'
               = (if nodes ch = None then icap else nodes_capacity ch * 2)"
proof (cases e)
  case CONSISTENT_HASHER_OK
  with ret have "consistent_hasher_insert_node icap ok (Some ch) h
      = Inr (CONSISTENT_HASHER_OK, Some ch')"
    by simp
  then show ?thesis
  proof (cases rule: insert_node_OK_cases)
    case (first buf buf')
    with wf CONSISTENT_HASHER_OK show ?thesis
      by (simp add: ring_wf_def)
  next
    case (resize buf index new_nodes new_nodes' new_nodes'')
    with CONSISTENT_HASHER_OK show ?thesis
      by simp
  next
    case (shift buf index buf' buf'')
    with chg show ?thesis
      by simp
  qed
next
  case CONSISTENT_HASHER_ERROR_IS_NULL
  with ret show ?thesis
    by (auto simp: consistent_hasher_insert_node_def Let_def
        split: if_splits option.splits sum.splits)
next
  case CONSISTENT_HASHER_ERROR_ALLOCATION
  with ret chg show ?thesis
    by (auto simp: consistent_hasher_insert_node_def Let_def
        split: if_splits option.splits sum.splits)
next
  case CONSISTENT_HASHER_ERROR_NODE_PRESENT
  with ret chg show ?thesis
    by (auto simp: consistent_hasher_insert_node_def Let_def
        split: if_splits option.splits sum.splits)
qed

lemma delete_node_capacity:
  assumes ret: "consistent_hasher_delete_node ok (Some ch) h = Inr (e, Some ch')"
    and chg: "nodes_capacity ch' \<noteq> nodes_capacity ch"
  shows "e = CONSISTENT_HASHER_OK
           \<and> (\<exists>index. consistent_hasher_binary_search ch h = Inr (True, index))
           \<and> nodes_len ch - 1 = nodes_capacity ch sdiv 2
           \<and> nodes_len ch' = nodes_len ch - 1 \<and> nodes_capacity ch' = nodes_len ch'"
  using assms
  by (auto simp: consistent_hasher_delete_node_def
      split: if_splits option.splits sum.splits)

lemma delete_node_shrinks:
  assumes "consistent_hasher_binary_search ch h = Inr (True, index)"
    and "nodes_len ch - 1 = nodes_capacity ch sdiv 2"
    and "consistent_hasher_delete_node True (Some ch) h = Inr (e, Some ch')"
  shows "e = CONSISTENT_HASHER_OK \<and> nodes_len ch' = nodes_len ch - 1
           \<and> nodes_capacity ch' = nodes_len ch'
           \<and> (\<exists>buf'. nodes ch' = Some buf' \<and> int (length buf') = nodes_len ch')"
proof -
  from assms(1) have "1 \<le> nodes_len ch"
    by (rule binary_search_found_nonempty)
  then obtain new_nodes where
    alloc: "CONSISTENT_HASHER_CALLOC True (nodes_len ch - 1) = Some new_nodes"
    and nl: "int (length new_nodes) = nodes_len ch - 1"
    by (simp add: CONSISTENT_HASHER_CALLOC_def)
  from assms alloc obtain buf new_nodes' where
    "delete_copy_loop buf new_nodes index (nodes_len ch) 0 = Inr new_nodes'"
    and "e = CONSISTENT_HASHER_OK"
    and "ch' = ch\<lparr>nodes := Some new_nodes', nodes_len := nodes_len ch - 1,
        nodes_capacity := nodes_len ch - 1\<rparr>"
    by (auto simp: consistent_hasher_delete_node_def split: option.splits sum.splits)
  with nl delete_copy_loop_length [of buf new_nodes index "nodes_len ch" 0 new_nodes']
  show ?thesis
    by simp
qed

section \<open>Division by the ring size\<close>

lemma node_read_no_div: "node_read p i \<noteq> Inl DivisionByZero"
  by (simp add: node_read_def split: option.split)

lemma node_write_no_div: "node_write buf i n \<noteq> Inl DivisionByZero"
  by (simp add: node_write_def)

lemma binary_search_loop_no_div: "binary_search_loop ns p start endx \<noteq> Inl DivisionByZero"
proof (induction ns p start endx rule: binary_search_loop.induct)
  case (1 ns p start endx)
  show ?case
    using "1.IH" node_read_no_div [of ns "(endx - start) sdiv 2 + start"]
    by (subst binary_search_loop.simps) (auto simp: Let_def split: sum.split)
qed

lemma insert_copy_loop_no_div:
  "insert_copy_loop old_nodes new_nodes index capacity i \<noteq> Inl DivisionByZero"
proof (induction old_nodes new_nodes index capacity i rule: insert_copy_loop.induct)
  case (1 old_nodes new_nodes index capacity i)
  show ?case
    using "1.IH" node_read_no_div [of "Some old_nodes" i]
      node_write_no_div [of new_nodes "if i \<ge> index \<and> i < capacity then i + 1 else i"]
    by (subst insert_copy_loop.simps) (auto split: sum.split)
qed

lemma insert_shift_loop_no_div: "insert_shift_loop buf index i \<noteq> Inl DivisionByZero"
proof (induction buf index i rule: insert_shift_loop.induct)
  case (1 buf index i)
  show ?case
    using "1.IH" node_read_no_div [of "Some buf" "i - 1"] node_write_no_div [of buf i]
    by (subst insert_shift_loop.simps) (auto split: sum.split)
qed

lemma delete_copy_loop_no_div:
  "delete_copy_loop old_nodes new_nodes index len i \<noteq> Inl DivisionByZero"
proof (induction old_nodes new_nodes index len i rule: delete_copy_loop.induct)
  case (1 old_nodes new_nodes index len i)
  show ?case
    using "1.IH" node_read_no_div [of "Some old_nodes" "if i < index then i else i + 1"]
      node_write_no_div [of new_nodes i]
    by (subst delete_copy_loop.simps) (auto split: sum.split)
qed

lemma delete_shift_loop_no_div: "delete_shift_loop buf len i \<noteq> Inl DivisionByZero"
proof (induction buf len i rule: delete_shift_loop.induct)
  case (1 buf len i)
  show ?case
    using "1.IH" node_read_no_div [of "Some buf" "i + 1"] node_write_no_div [of buf i]
    by (subst delete_shift_loop.simps) (auto split: sum.split)
qed

lemma binary_search_div:
  "(consistent_hasher_binary_search ch h = Inl DivisionByZero) = (ring_size ch = 0)"
  by (simp add: consistent_hasher_binary_search_def Let_def binary_search_loop_no_div)

lemma insert_node_div:
  "(consistent_hasher_insert_node icap ok (Some ch) h = Inl DivisionByZero)
     = (ring_size ch = 0)"
  using binary_search_div [of ch h]
  by (auto simp: consistent_hasher_insert_node_def Let_def node_write_no_div
      insert_copy_loop_no_div insert_shift_loop_no_div
      split: option.split sum.split prod.split)

lemma delete_node_div:
  "(consistent_hasher_delete_node ok (Some ch) h = Inl DivisionByZero) = (ring_size ch = 0)"
  using binary_search_div [of ch h]
  by (auto simp: consistent_hasher_delete_node_def Let_def
      delete_copy_loop_no_div delete_shift_loop_no_div
      split: option.split sum.split prod.split)

lemma get_node_of_div:
  "(consistent_hasher_get_node_of (Some ch) h = Inl DivisionByZero) = (ring_size ch = 0)"
  using binary_search_div [of ch h]
  by (auto simp: consistent_hasher_get_node_of_def Let_def node_read_no_div
      split: option.split sum.split prod.split)

section \<open>The properties of the specification\<close>

subsection \<open>Sortedness\<close>

text \<open>
  C1 states that after any sequence of inserts and deletes on a ring created empty the
  entries are strictly ascending by position. With the default configuration and a ring
  size of 1024, inserting 10 and then 5 leaves two entries, \<open>(5, 5)\<close> and the zeroed slot
  \<open>(0, 0)\<close>: the insert without resize writes the new node over node 10, moves
  nothing, and counts one more slot. The positions 5, 0 are not ascending.
\<close>

theorem insert_below_first_breaks_sortedness:
  "run_ops CONSISTENT_HASHER_INITIAL_CAPACITY (new_ring 1024) [Insert 10, Insert 5]
     = Inr (Some (ring_of [node_of 5] 2 8))
   \<and> ring_nodes (ring_of [node_of 5] 2 8) = [node_of 5, zero_node]
   \<and> \<not> sortedness (ring_of [node_of 5] 2 8)"
  by code_simp

subsection \<open>The locator\<close>

text \<open>
  C2 states that on a strictly sorted ring the search returns true with the index of the
  entry that holds the position, interior matches included. On the sorted ring with the
  positions 10, 20, 30 the search for 20 matches at \<^verbatim>\<open>mid = 1\<close> in its first round and
  reports \<^verbatim>\<open>start = 0\<close>, the index of the entry at position 10.
\<close>

theorem binary_search_match_reports_start:
  "run_ops CONSISTENT_HASHER_INITIAL_CAPACITY (new_ring 1024) [Insert 10, Insert 20, Insert 30]
     = Inr (Some (ring_of [node_of 10, node_of 20, node_of 30] 3 8))
   \<and> sortedness (ring_of [node_of 10, node_of 20, node_of 30] 3 8)
   \<and> map position (ring_nodes (ring_of [node_of 10, node_of 20, node_of 30] 3 8))
       = [10, 20, 30]
   \<and> consistent_hasher_binary_search (ring_of [node_of 10, node_of 20, node_of 30] 3 8) 20
       = Inr (True, 0)"
  by code_simp

subsection \<open>Insert\<close>

text \<open>
  C3 states that an insert at an unoccupied position of a sorted ring moves the entries
  at or after the insertion index one slot to the right and keeps every entry, on the
  path without resize too. On the sorted ring 10, 20, 30 with five free slots, inserting
  5 returns OK and leaves the entries 5, 20, 20 and a zeroed slot: the shift loop leaves
  out its first and its last move, so nodes 10 and 30 are gone and the ring is no longer
  sorted.
\<close>

theorem insert_without_resize_loses_entries:
  "run_ops CONSISTENT_HASHER_INITIAL_CAPACITY (new_ring 1024) [Insert 10, Insert 20, Insert 30]
     = Inr (Some (ring_of [node_of 10, node_of 20, node_of 30] 3 8))
   \<and> sortedness (ring_of [node_of 10, node_of 20, node_of 30] 3 8)
   \<and> 5 mod 1024
       \<notin> set (map position (ring_nodes (ring_of [node_of 10, node_of 20, node_of 30] 3 8)))
   \<and> consistent_hasher_insert_node CONSISTENT_HASHER_INITIAL_CAPACITY True
         (Some (ring_of [node_of 10, node_of 20, node_of 30] 3 8)) 5
       = Inr (CONSISTENT_HASHER_OK, Some (ring_of [node_of 5, node_of 20, node_of 20] 4 8))
   \<and> ring_nodes (ring_of [node_of 5, node_of 20, node_of 20] 4 8)
       = [node_of 5, node_of 20, node_of 20, zero_node]
   \<and> \<not> sortedness (ring_of [node_of 5, node_of 20, node_of 20] 4 8)"
  by code_simp

subsection \<open>Delete\<close>

text \<open>
  C4 states that a delete of a present entry removes exactly that entry and keeps the
  others, on the path without shrink too. On the sorted ring 10, 20, 30 with five free
  slots, deleting 10 returns OK and leaves the entries 20, 20: the shift loop stops one
  slot early, so node 30 is gone and node 20 is there twice. Deleting 20 instead leaves
  the same two entries: the search reports index 0 for it, and node 20 itself stays.
\<close>

theorem delete_without_shrink_keeps_wrong_entries:
  "run_ops CONSISTENT_HASHER_INITIAL_CAPACITY (new_ring 1024) [Insert 10, Insert 20, Insert 30]
     = Inr (Some (ring_of [node_of 10, node_of 20, node_of 30] 3 8))
   \<and> sortedness (ring_of [node_of 10, node_of 20, node_of 30] 3 8)
   \<and> consistent_hasher_delete_node True
         (Some (ring_of [node_of 10, node_of 20, node_of 30] 3 8)) 10
       = Inr (CONSISTENT_HASHER_OK, Some (ring_of [node_of 20, node_of 20, node_of 30] 2 8))
   \<and> consistent_hasher_delete_node True
         (Some (ring_of [node_of 10, node_of 20, node_of 30] 3 8)) 20
       = Inr (CONSISTENT_HASHER_OK, Some (ring_of [node_of 20, node_of 20, node_of 30] 2 8))
   \<and> ring_nodes (ring_of [node_of 20, node_of 20, node_of 30] 2 8)
       = [node_of 20, node_of 20]"
  by code_simp

subsection \<open>The resolver\<close>

text \<open>
  C5 states that on a non-empty sorted ring the lookup returns the node at the smallest
  position at or above the item's position, and the node at the smallest position when
  the item's position is above all of them. On the sorted ring 10, 20, 30 the lookup of
  20 returns node 10: the search reports index 0 for the match, and 20 is above the
  position there, so the lookup wraps. After the delete of 30 from that ring, the lookup
  of 25 is above both entries and returns 30: the lookup reads \<^verbatim>\<open>nodes[nodes_len]\<close>,
  the slot the deleted node was left in. In a full buffer that slot does not exist: with
  the initial capacity 1 of \<^verbatim>\<open>test.c\<close> and node 10 alone, the lookup of 20 reads outside
  the buffer.
\<close>

theorem get_node_of_returns_wrong_node:
  "run_ops CONSISTENT_HASHER_INITIAL_CAPACITY (new_ring 1024) [Insert 10, Insert 20, Insert 30]
     = Inr (Some (ring_of [node_of 10, node_of 20, node_of 30] 3 8))
   \<and> sortedness (ring_of [node_of 10, node_of 20, node_of 30] 3 8)
   \<and> consistent_hasher_get_node_of
         (Some (ring_of [node_of 10, node_of 20, node_of 30] 3 8)) 20 = Inr 10
   \<and> consistent_hasher_delete_node True
         (Some (ring_of [node_of 10, node_of 20, node_of 30] 3 8)) 30
       = Inr (CONSISTENT_HASHER_OK, Some (ring_of [node_of 10, node_of 20, node_of 30] 2 8))
   \<and> ring_nodes (ring_of [node_of 10, node_of 20, node_of 30] 2 8)
       = [node_of 10, node_of 20]
   \<and> sortedness (ring_of [node_of 10, node_of 20, node_of 30] 2 8)
   \<and> consistent_hasher_get_node_of
         (Some (ring_of [node_of 10, node_of 20, node_of 30] 2 8)) 25 = Inr 30
   \<and> run_ops 1 (new_ring 1024) [Insert 10] = Inr (Some (ring_of [node_of 10] 1 1))
   \<and> consistent_hasher_get_node_of (Some (ring_of [node_of 10] 1 1)) 20 = Inl OutOfBounds"
  by code_simp

subsection \<open>Delete of an absent node\<close>

text \<open>
  C6 states that the delete of an identifier that no entry holds returns OK and changes
  nothing. The delete looks for the position, not the identifier: in the ring that holds
  node 123 alone, no entry has the identifier 1147, and its delete removes node 123,
  which sits at the position \<open>1147 mod 1024\<close>.
\<close>

theorem delete_colliding_identifier_removes_node:
  "run_ops CONSISTENT_HASHER_INITIAL_CAPACITY (new_ring 1024) [Insert 123]
     = Inr (Some (ring_of [node_of 123] 1 8))
   \<and> 1147 \<notin> set (map hash (ring_nodes (ring_of [node_of 123] 1 8)))
   \<and> consistent_hasher_delete_node True (Some (ring_of [node_of 123] 1 8)) 1147
       = Inr (CONSISTENT_HASHER_OK, Some (ring_of [node_of 123] 0 8))
   \<and> ring_nodes (ring_of [node_of 123] 0 8) = []"
  by code_simp

text \<open>
  C6 as amended: in a well-formed ring of non-zero ring size, the delete of an identifier
  whose position no entry holds returns OK and leaves the ring as it is, whatever the
  allocator would do and whether the entries are sorted or not.
\<close>

theorem delete_unoccupied_position_noop:
  assumes "ring_wf ch" and "ring_size ch \<noteq> 0"
    and "\<forall>n \<in> set (ring_nodes ch). position n \<noteq> node_hash mod ring_size ch"
  shows "consistent_hasher_delete_node ok (Some ch) node_hash
           = Inr (CONSISTENT_HASHER_OK, Some ch)"
  using binary_search_absent [OF assms]
  by (auto simp: consistent_hasher_delete_node_def)

theorem delete_unoccupied_position_noop_witness:
  "ring_wf (ring_of [node_of 123] 1 8) \<and> ring_size (ring_of [node_of 123] 1 8) \<noteq> 0
   \<and> 456 mod ring_size (ring_of [node_of 123] 1 8)
       \<notin> set (map position (ring_nodes (ring_of [node_of 123] 1 8)))
   \<and> consistent_hasher_delete_node True (Some (ring_of [node_of 123] 1 8)) 456
       = Inr (CONSISTENT_HASHER_OK, Some (ring_of [node_of 123] 1 8))"
proof -
  have wf: "ring_wf (ring_of [node_of 123] 1 8)"
    by code_simp
  have rs: "ring_size (ring_of [node_of 123] 1 8) \<noteq> 0"
    by code_simp
  have absent: "\<forall>n \<in> set (ring_nodes (ring_of [node_of 123] 1 8)).
      position n \<noteq> 456 mod ring_size (ring_of [node_of 123] 1 8)"
    by code_simp
  have free: "456 mod ring_size (ring_of [node_of 123] 1 8)
      \<notin> set (map position (ring_nodes (ring_of [node_of 123] 1 8)))"
    by code_simp
  from wf rs free delete_unoccupied_position_noop [OF wf rs absent, of True]
  show ?thesis by simp
qed

subsection \<open>Collision rejection\<close>

text \<open>The check of insert: an occupied position of a sorted ring is rejected.\<close>

lemma insert_occupied_position_rejected:
  assumes wf: "ring_wf ch" and rs: "ring_size ch \<noteq> 0" and sorted: "sortedness ch"
    and occ: "node_hash mod ring_size ch \<in> set (map position (ring_nodes ch))"
  shows "consistent_hasher_insert_node icap ok (Some ch) node_hash
           = Inr (CONSISTENT_HASHER_ERROR_NODE_PRESENT, Some ch)"
proof -
  from occ obtain k where k: "k < length (ring_nodes ch)"
      "position (ring_nodes ch ! k) = node_hash mod ring_size ch"
    by (auto simp: in_set_conv_nth)
  from binary_search_sorted_hit [OF wf rs sorted k]
  obtain s where "consistent_hasher_binary_search ch node_hash = Inr (True, s)"
    by blast
  moreover from k(1) obtain buf where "nodes ch = Some buf"
    by (cases "nodes ch") (auto simp: ring_nodes_def)
  ultimately show ?thesis
    using rs by (simp add: consistent_hasher_insert_node_def)
qed

text \<open>
  C7 states that in every ring, after a successful insert of an identifier at a free
  position, the insert of a second identifier with the same position fails with
  NODE\_PRESENT and changes nothing. With the default configuration and a ring size of
  1024, the inserts of 3 and 2 leave the entries \<open>(2, 2)\<close> and \<open>(0, 0)\<close>, where
  position 1 is free. The insert of 1 returns OK and leaves \<open>(1, 1)\<close>, \<open>(0, 0)\<close>,
  \<open>(0, 0)\<close>; the insert of 1025, at the same position 1, then returns OK as well: the
  search runs to the right over the zeroed slots and misses the entry at index 0.
\<close>

theorem colliding_insert_accepted:
  "run_ops CONSISTENT_HASHER_INITIAL_CAPACITY (new_ring 1024) [Insert 3, Insert 2]
     = Inr (Some (ring_of [node_of 2] 2 8))
   \<and> ring_nodes (ring_of [node_of 2] 2 8) = [node_of 2, zero_node]
   \<and> (1 :: 32 word) mod 1024 = 1025 mod 1024
   \<and> 1 mod 1024 \<notin> set (map position (ring_nodes (ring_of [node_of 2] 2 8)))
   \<and> consistent_hasher_insert_node CONSISTENT_HASHER_INITIAL_CAPACITY True
         (Some (ring_of [node_of 2] 2 8)) 1
       = Inr (CONSISTENT_HASHER_OK, Some (ring_of [node_of 1] 3 8))
   \<and> consistent_hasher_insert_node CONSISTENT_HASHER_INITIAL_CAPACITY True
         (Some (ring_of [node_of 1] 3 8)) 1025
       = Inr (CONSISTENT_HASHER_OK,
              Some (ring_of [node_of 1, zero_node, zero_node, node_of 1025] 4 8))"
  by code_simp

subsection \<open>Capacity\<close>

text \<open>
  C8 states that the length never exceeds the capacity in a reachable ring. With the
  initial capacity 1 of \<^verbatim>\<open>test.c\<close>, an insert and the delete of the same node shrink
  the buffer to zero slots with capacity 0. The next insert finds the length equal to
  the capacity, doubles 0 to 0, allocates zero slots and stores the node at
  \<^verbatim>\<open>nodes[0]\<close>, outside the buffer, before it sets the length to 1. With the default
  initial capacity the same state is reached by five inserts and five deletes.
\<close>

theorem insert_after_shrink_to_zero_writes_outside:
  "run_ops 1 (new_ring 1024) [Insert 1, Delete 1] = Inr (Some (ring_of [] 0 0))
   \<and> ring_wf (ring_of [] 0 0)
   \<and> nodes (ring_of [] 0 0) = Some []
   \<and> consistent_hasher_insert_node 1 True (Some (ring_of [] 0 0)) 2 = Inl OutOfBounds
   \<and> run_ops CONSISTENT_HASHER_INITIAL_CAPACITY (new_ring 1024)
         [Insert 1, Insert 2, Insert 3, Insert 4, Insert 5,
          Delete 5, Delete 4, Delete 3, Delete 2, Delete 1]
       = Inr (Some (ring_of [] 0 0))
   \<and> consistent_hasher_insert_node CONSISTENT_HASHER_INITIAL_CAPACITY True
         (Some (ring_of [] 0 0)) 9 = Inl OutOfBounds"
  by code_simp

subsection \<open>Round trip\<close>

text \<open>
  C9 states that insert, delete and insert of an identifier at a free position leave the
  same entries as the single insert. With the initial capacity 1 of \<^verbatim>\<open>test.c\<close>, the
  ring with the nodes 10 and 30 is full; the insert of 20 resizes it to 10, 20, 30. The
  delete of 20 removes node 10, since the search reports index 0 for the match, and the
  second insert of 20 fails with NODE\_PRESENT: the entries are 20, 30.
\<close>

theorem insert_delete_insert_differs:
  "run_ops 1 (new_ring 1024) [Insert 10, Insert 30]
     = Inr (Some (ring_of [node_of 10, node_of 30] 2 2))
   \<and> sortedness (ring_of [node_of 10, node_of 30] 2 2)
   \<and> 20 mod 1024 \<notin> set (map position (ring_nodes (ring_of [node_of 10, node_of 30] 2 2)))
   \<and> run_ops 1 (Some (ring_of [node_of 10, node_of 30] 2 2)) [Insert 20]
       = Inr (Some (ring_of [node_of 10, node_of 20, node_of 30] 3 4))
   \<and> ring_nodes (ring_of [node_of 10, node_of 20, node_of 30] 3 4)
       = [node_of 10, node_of 20, node_of 30]
   \<and> run_ops 1 (Some (ring_of [node_of 10, node_of 30] 2 2))
         [Insert 20, Delete 20, Insert 20]
       = Inr (Some (ring_of [node_of 20, node_of 30] 2 2))
   \<and> ring_nodes (ring_of [node_of 20, node_of 30] 2 2) = [node_of 20, node_of 30]
   \<and> consistent_hasher_insert_node 1 True
         (Some (ring_of [node_of 20, node_of 30] 2 2)) 20
       = Inr (CONSISTENT_HASHER_ERROR_NODE_PRESENT,
              Some (ring_of [node_of 20, node_of 30] 2 2))"
  by code_simp

subsection \<open>The ring size as a precondition\<close>

text \<open>
  C10 states that init accepts a ring size of 0, that the search, insert, delete and
  lookup divide by the ring size without a check, and that with a ring size above 0 no
  derived position divides by zero. For every ring and hash: each of the four functions
  runs into the division by zero when the ring size is 0, and none of them does when it
  is not.
\<close>

theorem ring_size_zero_divides_by_zero:
  "consistent_hasher_init (Some ch0) 0
     = Some \<lparr>ring_size = 0, nodes = None, nodes_len = 0, nodes_capacity = 0\<rparr>
   \<and> (ring_size ch = 0 \<longrightarrow>
         consistent_hasher_binary_search ch h = Inl DivisionByZero
       \<and> consistent_hasher_insert_node icap ok (Some ch) h = Inl DivisionByZero
       \<and> consistent_hasher_delete_node ok (Some ch) h = Inl DivisionByZero
       \<and> consistent_hasher_get_node_of (Some ch) h = Inl DivisionByZero)
   \<and> (ring_size ch \<noteq> 0 \<longrightarrow>
         consistent_hasher_binary_search ch h \<noteq> Inl DivisionByZero
       \<and> consistent_hasher_insert_node icap ok (Some ch) h \<noteq> Inl DivisionByZero
       \<and> consistent_hasher_delete_node ok (Some ch) h \<noteq> Inl DivisionByZero
       \<and> consistent_hasher_get_node_of (Some ch) h \<noteq> Inl DivisionByZero)"
  by (simp add: consistent_hasher_init_def binary_search_div insert_node_div
      delete_node_div get_node_of_div)

theorem ring_size_zero_divides_by_zero_witness:
  "ring_size (ring_of [node_of 123] 1 8) \<noteq> 0
   \<and> consistent_hasher_binary_search (ring_of [node_of 123] 1 8) 456 \<noteq> Inl DivisionByZero
   \<and> consistent_hasher_insert_node CONSISTENT_HASHER_INITIAL_CAPACITY True
         (Some (ring_of [node_of 123] 1 8)) 456 \<noteq> Inl DivisionByZero
   \<and> consistent_hasher_delete_node True (Some (ring_of [node_of 123] 1 8)) 456
       \<noteq> Inl DivisionByZero
   \<and> consistent_hasher_get_node_of (Some (ring_of [node_of 123] 1 8)) 456
       \<noteq> Inl DivisionByZero
   \<and> new_ring 0 = Some \<lparr>ring_size = 0, nodes = None, nodes_len = 0, nodes_capacity = 0\<rparr>
   \<and> consistent_hasher_binary_search
         \<lparr>ring_size = 0, nodes = None, nodes_len = 0, nodes_capacity = 0\<rparr> 456
       = Inl DivisionByZero
   \<and> consistent_hasher_insert_node CONSISTENT_HASHER_INITIAL_CAPACITY True (new_ring 0) 456
       = Inl DivisionByZero
   \<and> consistent_hasher_delete_node True (new_ring 0) 456 = Inl DivisionByZero
   \<and> consistent_hasher_get_node_of (new_ring 0) 456 = Inl DivisionByZero"
proof -
  have pos: "ring_size (ring_of [node_of 123] 1 8) \<noteq> 0"
    by (simp add: ring_of_def)
  have zero: "ring_size \<lparr>ring_size = 0, nodes = None, nodes_len = 0, nodes_capacity = 0\<rparr> = 0"
    by simp
  have new: "new_ring 0
      = Some \<lparr>ring_size = 0, nodes = None, nodes_len = 0, nodes_capacity = 0\<rparr>"
    by (simp add: new_ring_def consistent_hasher_init_def)
  show ?thesis
    using pos zero
      ring_size_zero_divides_by_zero
        [of _ "ring_of [node_of 123] 1 8" 456 CONSISTENT_HASHER_INITIAL_CAPACITY True]
      ring_size_zero_divides_by_zero
        [of _ "\<lparr>ring_size = 0, nodes = None, nodes_len = 0, nodes_capacity = 0\<rparr>" 456
            CONSISTENT_HASHER_INITIAL_CAPACITY True]
    by (simp add: new)
qed

end
